theory Spec2Isabelle
  imports Main "HOL-Library.Word" "HOL-Library.Multiset" "HOL-Library.Char_ord"
    "HOL-Library.List_Lexorder" "HOL-Library.Sublist"
begin

unbundle bit_operations_syntax

section \<open>Errors\<close>

text \<open>
  Every error value and every run-time panic of the modelled Go code is a constructor here.
  A fallible operation returns \<open>error + 'a\<close>, with \<open>Inl\<close> for the error.
\<close>

datatype error =
    PanicMakesliceLenOutOfRange  \<comment> \<open>run-time panic of \<open>make([]*Node, n)\<close> with \<open>n < 0\<close>\<close>
  | ErrNoNodesAvailable          \<comment> \<open>"no nodes available"\<close>
  | ErrNoConnection              \<comment> \<open>"no connection to node ..."\<close>
  | ErrRpc                       \<comment> \<open>the transport returned \<open>err != nil\<close>\<close>
  | ErrKeyNotFound               \<comment> \<open>"key not found"\<close>
  | ErrContextDone               \<comment> \<open>\<open>ctx.Err()\<close> after the hedging deadline\<close>
  | ErrSetFailed                 \<comment> \<open>"set operation failed"\<close>
  | ErrDeleteFailed              \<comment> \<open>"delete operation failed"\<close>
  | ErrGetFromAnyNode            \<comment> \<open>"failed to get key from any node"\<close>
  | ErrWriteQuorum               \<comment> \<open>"failed to write to quorum of nodes"\<close>
  | ErrDeleteQuorum              \<comment> \<open>"failed to delete from quorum of nodes"\<close>

type_synonym byte = "8 word"

section \<open>The hash of the ring: MD5 and its first eight bytes\<close>

text \<open>
  \<open>Ring.hash\<close> calls \<open>md5.Sum\<close> of Go's standard library, which is the MD5 function of
  RFC 1321: the message is padded to a multiple of 64 bytes, and each block runs 64 rounds
  over four 32-bit words, with the sine table and the rotation amounts below.
\<close>

definition md5_shifts :: "nat list" where
  "md5_shifts =
    [7, 12, 17, 22, 7, 12, 17, 22, 7, 12, 17, 22, 7, 12, 17, 22,
     5, 9, 14, 20, 5, 9, 14, 20, 5, 9, 14, 20, 5, 9, 14, 20,
     4, 11, 16, 23, 4, 11, 16, 23, 4, 11, 16, 23, 4, 11, 16, 23,
     6, 10, 15, 21, 6, 10, 15, 21, 6, 10, 15, 21, 6, 10, 15, 21]"

definition md5_table :: "32 word list" where
  "md5_table =
    [0xD76AA478, 0xE8C7B756, 0x242070DB, 0xC1BDCEEE, 0xF57C0FAF, 0x4787C62A,
     0xA8304613, 0xFD469501, 0x698098D8, 0x8B44F7AF, 0xFFFF5BB1, 0x895CD7BE,
     0x6B901122, 0xFD987193, 0xA679438E, 0x49B40821, 0xF61E2562, 0xC040B340,
     0x265E5A51, 0xE9B6C7AA, 0xD62F105D, 0x02441453, 0xD8A1E681, 0xE7D3FBC8,
     0x21E1CDE6, 0xC33707D6, 0xF4D50D87, 0x455A14ED, 0xA9E3E905, 0xFCEFA3F8,
     0x676F02D9, 0x8D2A4C8A, 0xFFFA3942, 0x8771F681, 0x6D9D6122, 0xFDE5380C,
     0xA4BEEA44, 0x4BDECFA9, 0xF6BB4B60, 0xBEBFBC70, 0x289B7EC6, 0xEAA127FA,
     0xD4EF3085, 0x04881D05, 0xD9D4D039, 0xE6DB99E5, 0x1FA27CF8, 0xC4AC5665,
     0xF4292244, 0x432AFF97, 0xAB9423A7, 0xFC93A039, 0x655B59C3, 0x8F0CCC92,
     0xFFEFF47D, 0x85845DD1, 0x6FA87E4F, 0xFE2CE6E0, 0xA3014314, 0x4E0811A1,
     0xF7537E82, 0xBD3AF235, 0x2AD7D2BB, 0xEB86D391]"

definition le_uint32 :: "byte list \<Rightarrow> 32 word" where
  "le_uint32 bs = foldr (\<lambda>b w. push_bit 8 w OR ucast b) bs 0"

definition put_le32 :: "32 word \<Rightarrow> byte list" where
  "put_le32 w = map (\<lambda>i. ucast (drop_bit (8 * i) w)) [0..<4]"

definition put_le64 :: "64 word \<Rightarrow> byte list" where
  "put_le64 w = map (\<lambda>i. ucast (drop_bit (8 * i) w)) [0..<8]"

text \<open>Padding: one byte \<open>0x80\<close>, zeros up to 56 modulo 64, then the length in bits,
  little-endian, in eight bytes.\<close>

definition md5_pad :: "byte list \<Rightarrow> byte list" where
  "md5_pad m =
     m @ [0x80] @ replicate ((119 - length m mod 64) mod 64) 0 @ put_le64 (8 * of_nat (length m))"

type_synonym md5_state = "32 word \<times> 32 word \<times> 32 word \<times> 32 word"

definition md5_round :: "32 word list \<Rightarrow> nat \<Rightarrow> md5_state \<Rightarrow> md5_state" where
  "md5_round m i st = (case st of (a, b, c, d) \<Rightarrow>
     (let (f, g) =
            (if i < 16 then ((b AND c) OR (NOT b AND d), i)
             else if i < 32 then ((d AND b) OR (NOT d AND c), (5 * i + 1) mod 16)
             else if i < 48 then (b XOR c XOR d, (3 * i + 5) mod 16)
             else (c XOR (b OR NOT d), (7 * i) mod 16));
          f' = f + a + md5_table ! i + m ! g
      in (d, b + word_rotl (md5_shifts ! i) f', b, c)))"

fun le_words :: "byte list \<Rightarrow> 32 word list" where
  "le_words (b0 # b1 # b2 # b3 # bs) = le_uint32 [b0, b1, b2, b3] # le_words bs"
| "le_words bs = []"

definition md5_block :: "md5_state \<Rightarrow> byte list \<Rightarrow> md5_state" where
  "md5_block st blk =
     (case (st, fold (md5_round (le_words blk)) [0..<64] st) of
        ((a0, b0, c0, d0), (a, b, c, d)) \<Rightarrow> (a0 + a, b0 + b, c0 + c, d0 + d))"

fun md5_blocks :: "nat \<Rightarrow> md5_state \<Rightarrow> byte list \<Rightarrow> md5_state" where
  "md5_blocks 0 st p = st"
| "md5_blocks (Suc k) st p = md5_blocks k (md5_block st (take 64 p)) (drop 64 p)"

definition md5_Sum :: "byte list \<Rightarrow> byte list" where
  "md5_Sum data =
     (let p = md5_pad data in
      case md5_blocks (length p div 64) (0x67452301, 0xEFCDAB89, 0x98BADCFE, 0x10325476) p of
        (a, b, c, d) \<Rightarrow> put_le32 a @ put_le32 b @ put_le32 c @ put_le32 d)"

text \<open>
  \<open>binary.BigEndian.Uint64(b)\<close> is
  \<open>uint64(b[7]) | uint64(b[6])<<8 | ... | uint64(b[0])<<56\<close>; \<open>Ring.hash\<close> gives it
  the slice \<open>h[:8]\<close> of the 16-byte digest, so the eight bytes are always there.
\<close>

fun BigEndian_Uint64 :: "byte list \<Rightarrow> 64 word" where
  "BigEndian_Uint64 (b0 # b1 # b2 # b3 # b4 # b5 # b6 # b7 # bs) =
     ucast b7 OR push_bit 8 (ucast b6) OR push_bit 16 (ucast b5) OR push_bit 24 (ucast b4) OR
     push_bit 32 (ucast b3) OR push_bit 40 (ucast b2) OR push_bit 48 (ucast b1) OR
     push_bit 56 (ucast b0)"
| "BigEndian_Uint64 bs = 0"

text \<open>A Go string is a sequence of bytes; \<open>[]byte(input)\<close> is that sequence.\<close>

definition bytes_of :: "string \<Rightarrow> byte list" where
  "bytes_of s = map of_char s"

definition hash :: "string \<Rightarrow> 64 word" where
  "hash input = BigEndian_Uint64 (take 8 (md5_Sum (bytes_of input)))"

section \<open>The ring\<close>

record Node =
  ID :: string
  Addr :: string

record Ring =
  nodes :: "string \<rightharpoonup> Node"

definition NewRing :: Ring where
  "NewRing = \<lparr>nodes = Map.empty\<rparr>"

definition AddNode :: "string \<Rightarrow> string \<Rightarrow> Ring \<Rightarrow> Ring" where
  "AddNode nid addr r = r\<lparr>nodes := (nodes r)(nid \<mapsto> \<lparr>ID = nid, Addr = addr\<rparr>)\<rparr>"

definition RemoveNode :: "string \<Rightarrow> Ring \<Rightarrow> Ring" where
  "RemoveNode nid r = r\<lparr>nodes := (nodes r)(nid := None)\<rparr>"

definition NodeCount :: "Ring \<Rightarrow> int" where
  "NodeCount r = int (card (dom (nodes r)))"

text \<open>
  \<open>for _, node := range r.nodes\<close> visits every entry of the map once, in an order that Go
  leaves unspecified and changes from one loop to the next. The order is an argument of the
  model: \<open>ks\<close> lists the keys in the order this loop visits them.
\<close>

definition range_order :: "Ring \<Rightarrow> string list \<Rightarrow> bool" where
  "range_order r ks \<longleftrightarrow> distinct ks \<and> set ks = dom (nodes r)"

text \<open>
  \<open>sort.Slice\<close> is not stable. On a slice of at most twelve elements it runs the
  library's insertion sort, which is the function below: each element moves left while
  \<open>less\<close> holds between it and its left neighbour. The accumulator holds the sorted prefix
  with the nearest neighbour first. On longer slices the library promises a permutation
  sorted under \<open>less\<close> and nothing more; the theorems about \<open>Owners\<close> that hold for every
  length use only that.
\<close>

fun insert_left :: "('a \<Rightarrow> 'a \<Rightarrow> bool) \<Rightarrow> 'a \<Rightarrow> 'a list \<Rightarrow> 'a list" where
  "insert_left lt x [] = [x]"
| "insert_left lt x (y # ys) = (if lt x y then y # insert_left lt x ys else x # y # ys)"

definition sort_Slice :: "('a \<Rightarrow> 'a \<Rightarrow> bool) \<Rightarrow> 'a list \<Rightarrow> 'a list" where
  "sort_Slice lt xs = rev (foldl (\<lambda>acc x. insert_left lt x acc) [] xs)"

type_synonym nodeScore = "Node \<times> 64 word"

definition Owners :: "Ring \<Rightarrow> string list \<Rightarrow> string \<Rightarrow> int \<Rightarrow> error + Node list" where
  "Owners r ks key n =
     (if NodeCount r = 0 then Inr []
      else
        let n' = (if n > NodeCount r then NodeCount r else n);
            scores = map (\<lambda>node. (node, hash (key @ ID node))) (List.map_filter (nodes r) ks);
            sorted = sort_Slice (\<lambda>a b. snd a > snd b) scores
        in if n' < 0 then Inl PanicMakesliceLenOutOfRange
           else Inr (map fst (take (nat n') sorted)))"

section \<open>Notions used to state the properties of the ring\<close>

text \<open>
  \<open>AddNode\<close> stores every node under its own identity; \<open>ring_ok\<close> says so. It holds of
  \<open>NewRing\<close> and is kept by \<open>AddNode\<close> and \<open>RemoveNode\<close>.
\<close>

definition ring_ok :: "Ring \<Rightarrow> bool" where
  "ring_ok r \<longleftrightarrow> (\<forall>k n. nodes r k = Some n \<longrightarrow> ID n = k)"

definition members :: "Ring \<Rightarrow> string list \<Rightarrow> Node list" where
  "members r ks = List.map_filter (nodes r) ks"

definition score :: "string \<Rightarrow> Node \<Rightarrow> 64 word" where
  "score key node = hash (key @ ID node)"



definition primary_owner :: "error + Node list \<Rightarrow> Node option" where
  "primary_owner res = (case res of Inr (p # _) \<Rightarrow> Some p | _ \<Rightarrow> None)"

text \<open>
  Two node identities of 128 bytes each with the same MD5 digest (the collision published by
  Wang and Yu in 2004), hence the same score under the empty key, and the rings built from them.
\<close>

definition collision_id_a :: string where
  "collision_id_a =
    [CHR 0xD1, CHR 0x31, CHR 0xDD, CHR 0x02, CHR 0xC5, CHR 0xE6, CHR 0xEE, CHR 0xC4,
     CHR 0x69, CHR 0x3D, CHR 0x9A, CHR 0x06, CHR 0x98, CHR 0xAF, CHR 0xF9, CHR 0x5C,
     CHR 0x2F, CHR 0xCA, CHR 0xB5, CHR 0x87, CHR 0x12, CHR 0x46, CHR 0x7E, CHR 0xAB,
     CHR 0x40, CHR 0x04, CHR 0x58, CHR 0x3E, CHR 0xB8, CHR 0xFB, CHR 0x7F, CHR 0x89,
     CHR 0x55, CHR 0xAD, CHR 0x34, CHR 0x06, CHR 0x09, CHR 0xF4, CHR 0xB3, CHR 0x02,
     CHR 0x83, CHR 0xE4, CHR 0x88, CHR 0x83, CHR 0x25, CHR 0x71, CHR 0x41, CHR 0x5A,
     CHR 0x08, CHR 0x51, CHR 0x25, CHR 0xE8, CHR 0xF7, CHR 0xCD, CHR 0xC9, CHR 0x9F,
     CHR 0xD9, CHR 0x1D, CHR 0xBD, CHR 0xF2, CHR 0x80, CHR 0x37, CHR 0x3C, CHR 0x5B,
     CHR 0xD8, CHR 0x82, CHR 0x3E, CHR 0x31, CHR 0x56, CHR 0x34, CHR 0x8F, CHR 0x5B,
     CHR 0xAE, CHR 0x6D, CHR 0xAC, CHR 0xD4, CHR 0x36, CHR 0xC9, CHR 0x19, CHR 0xC6,
     CHR 0xDD, CHR 0x53, CHR 0xE2, CHR 0xB4, CHR 0x87, CHR 0xDA, CHR 0x03, CHR 0xFD,
     CHR 0x02, CHR 0x39, CHR 0x63, CHR 0x06, CHR 0xD2, CHR 0x48, CHR 0xCD, CHR 0xA0,
     CHR 0xE9, CHR 0x9F, CHR 0x33, CHR 0x42, CHR 0x0F, CHR 0x57, CHR 0x7E, CHR 0xE8,
     CHR 0xCE, CHR 0x54, CHR 0xB6, CHR 0x70, CHR 0x80, CHR 0xA8, CHR 0x0D, CHR 0x1E,
     CHR 0xC6, CHR 0x98, CHR 0x21, CHR 0xBC, CHR 0xB6, CHR 0xA8, CHR 0x83, CHR 0x93,
     CHR 0x96, CHR 0xF9, CHR 0x65, CHR 0x2B, CHR 0x6F, CHR 0xF7, CHR 0x2A, CHR 0x70]"

definition collision_id_b :: string where
  "collision_id_b =
    [CHR 0xD1, CHR 0x31, CHR 0xDD, CHR 0x02, CHR 0xC5, CHR 0xE6, CHR 0xEE, CHR 0xC4,
     CHR 0x69, CHR 0x3D, CHR 0x9A, CHR 0x06, CHR 0x98, CHR 0xAF, CHR 0xF9, CHR 0x5C,
     CHR 0x2F, CHR 0xCA, CHR 0xB5, CHR 0x07, CHR 0x12, CHR 0x46, CHR 0x7E, CHR 0xAB,
     CHR 0x40, CHR 0x04, CHR 0x58, CHR 0x3E, CHR 0xB8, CHR 0xFB, CHR 0x7F, CHR 0x89,
     CHR 0x55, CHR 0xAD, CHR 0x34, CHR 0x06, CHR 0x09, CHR 0xF4, CHR 0xB3, CHR 0x02,
     CHR 0x83, CHR 0xE4, CHR 0x88, CHR 0x83, CHR 0x25, CHR 0xF1, CHR 0x41, CHR 0x5A,
     CHR 0x08, CHR 0x51, CHR 0x25, CHR 0xE8, CHR 0xF7, CHR 0xCD, CHR 0xC9, CHR 0x9F,
     CHR 0xD9, CHR 0x1D, CHR 0xBD, CHR 0x72, CHR 0x80, CHR 0x37, CHR 0x3C, CHR 0x5B,
     CHR 0xD8, CHR 0x82, CHR 0x3E, CHR 0x31, CHR 0x56, CHR 0x34, CHR 0x8F, CHR 0x5B,
     CHR 0xAE, CHR 0x6D, CHR 0xAC, CHR 0xD4, CHR 0x36, CHR 0xC9, CHR 0x19, CHR 0xC6,
     CHR 0xDD, CHR 0x53, CHR 0xE2, CHR 0x34, CHR 0x87, CHR 0xDA, CHR 0x03, CHR 0xFD,
     CHR 0x02, CHR 0x39, CHR 0x63, CHR 0x06, CHR 0xD2, CHR 0x48, CHR 0xCD, CHR 0xA0,
     CHR 0xE9, CHR 0x9F, CHR 0x33, CHR 0x42, CHR 0x0F, CHR 0x57, CHR 0x7E, CHR 0xE8,
     CHR 0xCE, CHR 0x54, CHR 0xB6, CHR 0x70, CHR 0x80, CHR 0x28, CHR 0x0D, CHR 0x1E,
     CHR 0xC6, CHR 0x98, CHR 0x21, CHR 0xBC, CHR 0xB6, CHR 0xA8, CHR 0x83, CHR 0x93,
     CHR 0x96, CHR 0xF9, CHR 0x65, CHR 0xAB, CHR 0x6F, CHR 0xF7, CHR 0x2A, CHR 0x70]"

definition node_a :: Node where "node_a = \<lparr>ID = collision_id_a, Addr = ''localhost:8081''\<rparr>"
definition node_b :: Node where "node_b = \<lparr>ID = collision_id_b, Addr = ''localhost:8082''\<rparr>"

definition ring_a :: Ring where
  "ring_a = AddNode collision_id_a ''localhost:8081'' NewRing"

definition collision_ring :: Ring where
  "collision_ring = AddNode collision_id_b ''localhost:8082'' ring_a"

text \<open>A ring of two nodes whose scores under the key \<open>k\<close> differ.\<close>

definition ring_n1 :: Ring where
  "ring_n1 = AddNode ''n1'' ''localhost:8081'' NewRing"

definition ring_n12 :: Ring where
  "ring_n12 = AddNode ''n2'' ''localhost:8082'' ring_n1"

section \<open>The quorum coordinator\<close>

text \<open>
  One call of the coordinator sends RPCs to replicas; what each replica answers is not code
  of the client, so it is an argument of the model. \<open>GetResponse found v\<close>,
  \<open>SetResponse success\<close> and \<open>DeleteResponse deleted\<close> are the protobuf responses, and the
  \<open>RpcError\<close> constructors stand for \<open>err != nil\<close> from the transport (unreachable replica,
  deadline, admission denied).

  \<open>Network\<close> gives, for a node identity and the request, the outcome of each attempt of the
  call: \<open>get_first\<close> is the attempt every \<open>getFromNode\<close> makes, \<open>get_hedge\<close> the second attempt
  that the hedging goroutine makes on the same connection, and \<open>hedge_in_time\<close> tells whether
  the \<open>select\<close> receives the hedged value before \<open>ctx.Done()\<close>.

  The goroutines of \<open>Set\<close> and \<open>Delete\<close> each send one outcome to a channel and the
  coordinator counts the outcomes that are \<open>nil\<close>; the count does not depend on the order of
  arrival, so the model counts over the owner list.
\<close>

datatype get_rpc = GetRpcError | GetResponse bool "byte list"
datatype set_rpc = SetRpcError | SetResponse bool
datatype delete_rpc = DeleteRpcError | DeleteResponse bool

record Client =
  ring :: Ring
  connections :: "string \<rightharpoonup> string"
  readQuorum :: int
  writeQuorum :: int
  hedgeTimeout :: int

record Network =
  get_first :: "string \<Rightarrow> string \<Rightarrow> get_rpc"
  get_hedge :: "string \<Rightarrow> string \<Rightarrow> get_rpc"
  hedge_in_time :: "string \<Rightarrow> bool"
  set_reply :: "string \<Rightarrow> string \<Rightarrow> byte list \<Rightarrow> int option \<Rightarrow> set_rpc"
  delete_reply :: "string \<Rightarrow> string \<Rightarrow> delete_rpc"

definition getConnection :: "Client \<Rightarrow> string \<Rightarrow> error + string" where
  "getConnection c nodeID =
     (case connections c nodeID of Some conn \<Rightarrow> Inr conn | None \<Rightarrow> Inl ErrNoConnection)"





definition setToNode ::
  "Client \<Rightarrow> Network \<Rightarrow> string \<Rightarrow> string \<Rightarrow> byte list \<Rightarrow> int \<Rightarrow> error + unit" where
  "setToNode c net nodeID key v ttl =
     (case getConnection c nodeID of
        Inl e \<Rightarrow> Inl e
      | Inr conn \<Rightarrow>
          (case set_reply net nodeID key v (if ttl > 0 then Some ttl else None) of
             SetRpcError \<Rightarrow> Inl ErrRpc
           | SetResponse success \<Rightarrow> if \<not> success then Inl ErrSetFailed else Inr ()))"

definition deleteFromNode :: "Client \<Rightarrow> Network \<Rightarrow> string \<Rightarrow> string \<Rightarrow> error + unit" where
  "deleteFromNode c net nodeID key =
     (case getConnection c nodeID of
        Inl e \<Rightarrow> Inl e
      | Inr conn \<Rightarrow>
          (case delete_reply net nodeID key of
             DeleteRpcError \<Rightarrow> Inl ErrRpc
           | DeleteResponse deleted \<Rightarrow> if \<not> deleted then Inl ErrDeleteFailed else Inr ()))"

definition Client_Set ::
  "Client \<Rightarrow> Network \<Rightarrow> string list \<Rightarrow> string \<Rightarrow> byte list \<Rightarrow> int \<Rightarrow> error + unit" where
  "Client_Set c net ks key v ttl =
     (case Owners (ring c) ks key (writeQuorum c) of
        Inl e \<Rightarrow> Inl e
      | Inr owners \<Rightarrow>
          if length owners = 0 then Inl ErrNoNodesAvailable
          else
            let successes =
                  int (length (filter (\<lambda>owner. setToNode c net (ID owner) key v ttl = Inr ()) owners))
            in if successes \<ge> writeQuorum c then Inr () else Inl ErrWriteQuorum)"

definition Client_Delete :: "Client \<Rightarrow> Network \<Rightarrow> string list \<Rightarrow> string \<Rightarrow> error + unit" where
  "Client_Delete c net ks key =
     (case Owners (ring c) ks key (writeQuorum c) of
        Inl e \<Rightarrow> Inl e
      | Inr owners \<Rightarrow>
          if length owners = 0 then Inl ErrNoNodesAvailable
          else
            let successes =
                  int (length (filter (\<lambda>owner. deleteFromNode c net (ID owner) key = Inr ()) owners))
            in if successes \<ge> writeQuorum c then Inr () else Inl ErrDeleteQuorum)"


text \<open>Concrete clients and networks for the witnesses and counterexamples.\<close>

definition node_n1 :: Node where "node_n1 = \<lparr>ID = ''n1'', Addr = ''localhost:8081''\<rparr>"

definition client_one :: Client where
  "client_one = \<lparr>ring = ring_n1, connections = [''n1'' \<mapsto> ''localhost:8081''],
     readQuorum = 1, writeQuorum = 1, hedgeTimeout = 0\<rparr>"


definition client_short :: Client where
  "client_short = \<lparr>ring = ring_n1, connections = [''n1'' \<mapsto> ''localhost:8081''],
     readQuorum = 2, writeQuorum = 2, hedgeTimeout = 0\<rparr>"

definition net_absent :: Network where
  "net_absent = \<lparr>get_first = (\<lambda>nodeID key. GetResponse False []),
     get_hedge = (\<lambda>nodeID key. GetResponse False []),
     hedge_in_time = (\<lambda>nodeID. False),
     set_reply = (\<lambda>nodeID key v ttl. SetResponse True),
     delete_reply = (\<lambda>nodeID key. DeleteResponse False)\<rparr>"

definition net_only_n1 :: Network where
  "net_only_n1 = \<lparr>get_first = (\<lambda>nodeID key. if nodeID = ''n1'' then GetResponse True [0x76] else GetResponse False []),
     get_hedge = (\<lambda>nodeID key. GetResponse False []),
     hedge_in_time = (\<lambda>nodeID. False),
     set_reply = (\<lambda>nodeID key v ttl. SetResponse True),
     delete_reply = (\<lambda>nodeID key. DeleteResponse True)\<rparr>"

section \<open>The cache: an LRU list threaded through a store of entries\<close>

text \<open>
  An \<open>*Entry\<close> is an address; the store \<open>heap\<close> maps each address to the entry found there,
  and \<open>fresh\<close> is the next address that \<open>&Entry{...}\<close> hands out. The nil pointer is \<open>None\<close>.
  Every dereference in the source is guarded by a nil test, which the \<open>case\<close> expressions
  below repeat. A \<open>time.Time\<close> is a number of nanoseconds, the zero \<open>Time\<close> being 0, and the
  clock reading \<open>time.Now()\<close> of a call is its argument \<open>now\<close>. The current size is the field
  \<open>size_c\<close>. The mutex is held for the whole of every public operation, so the operations are
  modelled as atomic state transformers.
\<close>

type_synonym addr = nat

record Entry =
  Key :: string
  Value :: "byte list"
  ExpiresAt :: int
  Prev :: "addr option"
  Next :: "addr option"

record Cache =
  heap :: "addr \<Rightarrow> Entry"
  fresh :: addr
  entries :: "string \<rightharpoonup> addr"
  head :: "addr option"
  tail :: "addr option"
  capacity :: int
  size_c :: int

definition NewCache :: "int \<Rightarrow> Cache" where
  "NewCache cap =
     \<lparr>heap = (\<lambda>a. \<lparr>Key = [], Value = [], ExpiresAt = 0, Prev = None, Next = None\<rparr>),
      fresh = 0, entries = Map.empty, head = None, tail = None, capacity = cap, size_c = 0\<rparr>"

text \<open>\<open>upd a f c\<close> is an assignment to a field of the entry at \<open>a\<close>.\<close>

definition upd :: "addr \<Rightarrow> (Entry \<Rightarrow> Entry) \<Rightarrow> Cache \<Rightarrow> Cache" where
  "upd a f c = c\<lparr>heap := (heap c)(a := f (heap c a))\<rparr>"

text \<open>
  \<open>expired now entry\<close> is \<open>!entry.ExpiresAt.IsZero() && now.After(entry.ExpiresAt)\<close>, and
  \<open>expiry now ttl\<close> the value \<open>Set\<close> stores in \<open>ExpiresAt\<close>.
\<close>

definition expired :: "int \<Rightarrow> Entry \<Rightarrow> bool" where
  "expired now entry \<longleftrightarrow> ExpiresAt entry \<noteq> 0 \<and> now > ExpiresAt entry"

definition expiry :: "int \<Rightarrow> int \<Rightarrow> int" where
  "expiry now ttl = (if ttl > 0 then now + ttl else 0)"

definition addToFront :: "addr \<Rightarrow> Cache \<Rightarrow> Cache" where
  "addToFront entry c =
     (let c1 = upd entry (\<lambda>x. x\<lparr>Prev := None\<rparr>) c;
          c2 = upd entry (\<lambda>x. x\<lparr>Next := head c1\<rparr>) c1;
          c3 = (case head c2 of
                  Some h \<Rightarrow> upd h (\<lambda>x. x\<lparr>Prev := Some entry\<rparr>) c2
                | None \<Rightarrow> c2);
          c4 = c3\<lparr>head := Some entry\<rparr>
      in if tail c4 = None then c4\<lparr>tail := Some entry\<rparr> else c4)"

definition moveToFront :: "addr \<Rightarrow> Cache \<Rightarrow> Cache" where
  "moveToFront entry c =
     (if Some entry = head c then c
      else
        let c1 = (case Prev (heap c entry) of
                    Some p \<Rightarrow> upd p (\<lambda>x. x\<lparr>Next := Next (heap c entry)\<rparr>) c
                  | None \<Rightarrow> c);
            c2 = (case Next (heap c1 entry) of
                    Some n \<Rightarrow> upd n (\<lambda>x. x\<lparr>Prev := Prev (heap c1 entry)\<rparr>) c1
                  | None \<Rightarrow> c1);
            c3 = (if Some entry = tail c2 then c2\<lparr>tail := Prev (heap c2 entry)\<rparr> else c2)
        in addToFront entry c3)"

definition removeEntry :: "addr \<Rightarrow> Cache \<Rightarrow> Cache" where
  "removeEntry entry c =
     (let c1 = c\<lparr>entries := (entries c)(Key (heap c entry) := None)\<rparr>;
          c2 = (case Prev (heap c1 entry) of
                  Some p \<Rightarrow> upd p (\<lambda>x. x\<lparr>Next := Next (heap c1 entry)\<rparr>) c1
                | None \<Rightarrow> c1\<lparr>head := Next (heap c1 entry)\<rparr>);
          c3 = (case Next (heap c2 entry) of
                  Some n \<Rightarrow> upd n (\<lambda>x. x\<lparr>Prev := Prev (heap c2 entry)\<rparr>) c2
                | None \<Rightarrow> c2\<lparr>tail := Prev (heap c2 entry)\<rparr>)
      in c3\<lparr>size_c := size_c c3 - 1\<rparr>)"

definition evictLRU :: "Cache \<Rightarrow> Cache" where
  "evictLRU c = (case tail c of Some t \<Rightarrow> removeEntry t c | None \<Rightarrow> c)"

definition Cache_Get :: "int \<Rightarrow> string \<Rightarrow> Cache \<Rightarrow> (byte list \<times> bool) \<times> Cache" where
  "Cache_Get now key c =
     (case entries c key of
        None \<Rightarrow> (([], False), c)
      | Some entry \<Rightarrow>
          if expired now (heap c entry) then (([], False), removeEntry entry c)
          else let c' = moveToFront entry c in ((Value (heap c' entry), True), c'))"

definition Cache_Set :: "int \<Rightarrow> string \<Rightarrow> byte list \<Rightarrow> int \<Rightarrow> Cache \<Rightarrow> Cache" where
  "Cache_Set now key v ttl c =
     (case entries c key of
        Some existing \<Rightarrow>
          let c1 = upd existing (\<lambda>x. x\<lparr>Value := v\<rparr>) c;
              c2 = upd existing (\<lambda>x. x\<lparr>ExpiresAt := expiry now ttl\<rparr>) c1
          in moveToFront existing c2
      | None \<Rightarrow>
          let entry = fresh c;
              c1 = c\<lparr>heap := (heap c)(entry :=
                       \<lparr>Key = key, Value = v, ExpiresAt = expiry now ttl, Prev = None, Next = None\<rparr>),
                     fresh := entry + 1\<rparr>;
              c2 = c1\<lparr>entries := (entries c1)(key \<mapsto> entry)\<rparr>;
              c3 = addToFront entry c2;
              c4 = c3\<lparr>size_c := size_c c3 + 1\<rparr>
          in if size_c c4 > capacity c4 then evictLRU c4 else c4)"

definition Cache_Delete :: "string \<Rightarrow> Cache \<Rightarrow> bool \<times> Cache" where
  "Cache_Delete key c =
     (case entries c key of
        None \<Rightarrow> (False, c)
      | Some entry \<Rightarrow> (True, removeEntry entry c))"

definition Cache_Clear :: "Cache \<Rightarrow> Cache" where
  "Cache_Clear c = c\<lparr>entries := Map.empty, head := None, tail := None, size_c := 0\<rparr>"

text \<open>
  \<open>Cleanup\<close> ranges over the map while it deletes from it. \<open>ks\<close> is the order in which the
  loop visits the keys; Go does not produce a key that was deleted before the loop reached it,
  which is the \<open>None\<close> branch.
\<close>

fun Cleanup_loop :: "int \<Rightarrow> string list \<Rightarrow> int \<times> Cache \<Rightarrow> int \<times> Cache" where
  "Cleanup_loop now [] (removed, c) = (removed, c)"
| "Cleanup_loop now (key # ks) (removed, c) =
     (case entries c key of
        None \<Rightarrow> Cleanup_loop now ks (removed, c)
      | Some entry \<Rightarrow>
          if expired now (heap c entry) then Cleanup_loop now ks (removed + 1, removeEntry entry c)
          else Cleanup_loop now ks (removed, c))"

definition Cache_Cleanup :: "int \<Rightarrow> string list \<Rightarrow> Cache \<Rightarrow> int \<times> Cache" where
  "Cache_Cleanup now ks c = Cleanup_loop now ks (0, c)"

text \<open>Sequences of public operations; each operation carries its arguments and clock reading.\<close>

datatype cache_op =
    OpGet int string
  | OpSet int string "byte list" int
  | OpDelete string
  | OpCleanup int "string list"
  | OpClear

fun apply_op :: "cache_op \<Rightarrow> Cache \<Rightarrow> Cache" where
  "apply_op (OpGet now key) c = snd (Cache_Get now key c)"
| "apply_op (OpSet now key v ttl) c = Cache_Set now key v ttl c"
| "apply_op (OpDelete key) c = snd (Cache_Delete key c)"
| "apply_op (OpCleanup now ks) c = snd (Cache_Cleanup now ks c)"
| "apply_op OpClear c = Cache_Clear c"

definition run_ops :: "cache_op list \<Rightarrow> Cache \<Rightarrow> Cache" where
  "run_ops ops c = fold apply_op ops c"

text \<open>A run of \<open>Set\<close> calls, each with its clock reading, key, value and ttl.\<close>

fun Set_all :: "(int \<times> string \<times> byte list \<times> int) list \<Rightarrow> Cache \<Rightarrow> Cache" where
  "Set_all [] c = c"
| "Set_all ((now, key, v, ttl) # rest) c = Set_all rest (Cache_Set now key v ttl c)"

definition set_keys :: "(int \<times> string \<times> byte list \<times> int) list \<Rightarrow> string list" where
  "set_keys sets = map (\<lambda>(now, key, v, ttl). key) sets"

section \<open>Notions used to state the properties of the cache\<close>

text \<open>
  \<open>nexts c\<close> and \<open>prevs c\<close> are the two link fields as functions on addresses.
  \<open>reachable f p\<close> is the set of entries reached from the pointer \<open>p\<close> by following \<open>f\<close>, and
  \<open>path f p as q\<close> says that following \<open>f\<close> from \<open>p\<close> visits exactly the addresses \<open>as\<close>, in
  this order, and ends at \<open>q\<close>.
\<close>

definition nexts :: "Cache \<Rightarrow> addr \<Rightarrow> addr option" where
  "nexts c = (\<lambda>a. Next (heap c a))"

definition prevs :: "Cache \<Rightarrow> addr \<Rightarrow> addr option" where
  "prevs c = (\<lambda>a. Prev (heap c a))"

primrec path :: "(addr \<Rightarrow> addr option) \<Rightarrow> addr option \<Rightarrow> addr list \<Rightarrow> addr option \<Rightarrow> bool" where
  "path f p [] q \<longleftrightarrow> p = q"
| "path f p (a # as) q \<longleftrightarrow> p = Some a \<and> path f (f a) as q"

inductive_set reachable :: "(addr \<Rightarrow> addr option) \<Rightarrow> addr option \<Rightarrow> addr set"
  for f :: "addr \<Rightarrow> addr option" and p :: "addr option" where
  start: "p = Some a \<Longrightarrow> a \<in> reachable f p"
| step: "a \<in> reachable f p \<Longrightarrow> f a = Some b \<Longrightarrow> b \<in> reachable f p"

definition lasto :: "addr list \<Rightarrow> addr option" where
  "lasto as = (if as = [] then None else Some (last as))"

text \<open>
  The invariant of the data structure, for the list \<open>ps\<close> of linked entries from head to
  tail: the \<open>Next\<close> links from \<open>head\<close> run through \<open>ps\<close>, the \<open>Prev\<close> links from \<open>tail\<close> run
  through \<open>ps\<close> backwards, the index maps a key to an entry exactly when that entry is linked
  and carries the key, and \<open>size_c\<close> is the length of \<open>ps\<close>.
\<close>

definition cache_inv :: "Cache \<Rightarrow> addr list \<Rightarrow> bool" where
  "cache_inv c ps \<longleftrightarrow>
     distinct ps \<and>
     path (nexts c) (head c) ps None \<and>
     path (prevs c) (tail c) (rev ps) None \<and>
     (\<forall>k a. entries c k = Some a \<longleftrightarrow> a \<in> set ps \<and> Key (heap c a) = k) \<and>
     size_c c = int (length ps) \<and>
     (\<forall>a \<in> set ps. a < fresh c)"

definition keys_of :: "Cache \<Rightarrow> addr list \<Rightarrow> string list" where
  "keys_of c ps = map (\<lambda>a. Key (heap c a)) ps"

definition cache_ok :: "Cache \<Rightarrow> bool" where
  "cache_ok c \<longleftrightarrow> (\<exists>ps. cache_inv c ps) \<and> size_c c \<le> capacity c \<and> 1 \<le> capacity c"

text \<open>Two parts of the source's functions, named for the proofs: the unlinking half of
  \<open>moveToFront\<close>, and \<open>Set\<close> on a new key up to the capacity test.\<close>

definition moveToFront_unlinked :: "addr \<Rightarrow> Cache \<Rightarrow> Cache" where
  "moveToFront_unlinked entry c =
     (let c1 = (case Prev (heap c entry) of
                  Some p \<Rightarrow> upd p (\<lambda>x. x\<lparr>Next := Next (heap c entry)\<rparr>) c
                | None \<Rightarrow> c);
          c2 = (case Next (heap c1 entry) of
                  Some n \<Rightarrow> upd n (\<lambda>x. x\<lparr>Prev := Prev (heap c1 entry)\<rparr>) c1
                | None \<Rightarrow> c1)
      in if Some entry = tail c2 then c2\<lparr>tail := Prev (heap c2 entry)\<rparr> else c2)"

definition Cache_Set_inserted :: "int \<Rightarrow> string \<Rightarrow> byte list \<Rightarrow> int \<Rightarrow> Cache \<Rightarrow> Cache" where
  "Cache_Set_inserted now key v ttl c =
     (let entry = fresh c;
          c1 = c\<lparr>heap := (heap c)(entry :=
                   \<lparr>Key = key, Value = v, ExpiresAt = expiry now ttl, Prev = None, Next = None\<rparr>),
                 fresh := entry + 1\<rparr>;
          c2 = c1\<lparr>entries := (entries c1)(key \<mapsto> entry)\<rparr>;
          c3 = addToFront entry c2
      in c3\<lparr>size_c := size_c c3 + 1\<rparr>)"

text \<open>Concrete caches and operation sequences for the witnesses.\<close>

definition cache_a :: Cache where
  "cache_a = Cache_Set 0 ''a'' [1] 0 (NewCache 2)"

definition cache_a_ttl :: Cache where
  "cache_a_ttl = Cache_Set 0 ''a'' [1] 5 (NewCache 2)"

definition example_ops :: "cache_op list" where
  "example_ops = [OpSet 0 ''a'' [1] 0, OpSet 1 ''b'' [2] 5, OpGet 2 ''a'', OpSet 3 ''c'' [3] 0,
                  OpDelete ''a'', OpCleanup 9 [''c'', ''b''], OpClear]"

definition example_sets :: "(int \<times> string \<times> byte list \<times> int) list" where
  "example_sets = [(0, ''a'', [1], 0), (1, ''b'', [2], 0), (2, ''c'', [3], 0)]"

section \<open>Properties of the ring\<close>

lemma NodeCount_nonneg: "0 \<le> NodeCount r"
  by (simp add: NodeCount_def)

text \<open>
  C10. On a nonempty membership \<open>Owners\<close> returns a value exactly when \<open>n\<close> is not
  negative: a negative \<open>n\<close> is not clamped and reaches \<open>make([]*Node, n)\<close>, which panics.
\<close>

theorem Owners_negative_count_panics:
  assumes "NodeCount r \<noteq> 0"
  shows "(n < 0 \<longrightarrow> Owners r ks key n = Inl PanicMakesliceLenOutOfRange) \<and>
         ((\<exists>os. Owners r ks key n = Inr os) \<longleftrightarrow> 0 \<le> n)"
  using assms NodeCount_nonneg [of r] by (auto simp: Owners_def Let_def)

text \<open>C10, witness: one node and \<open>n = -1\<close>.\<close>

theorem Owners_negative_count_panics_witness:
  "NodeCount (AddNode ''n1'' ''localhost:8081'' NewRing) \<noteq> 0 \<and>
   Owners (AddNode ''n1'' ''localhost:8081'' NewRing) [''n1''] ''k'' (- 1)
     = Inl PanicMakesliceLenOutOfRange"
  using Owners_negative_count_panics
    [of "AddNode ''n1'' ''localhost:8081'' NewRing" "- 1" "[''n1'']" "''k''"]
  by (simp add: NodeCount_def AddNode_def NewRing_def)

lemma mset_insert_left: "mset (insert_left lt x ys) = add_mset x (mset ys)"
  by (induction ys) auto

lemma mset_foldl_insert_left:
  "mset (foldl (\<lambda>acc x. insert_left lt x acc) acc xs) = mset acc + mset xs"
  by (induction xs arbitrary: acc) (auto simp: mset_insert_left)

lemma mset_sort_Slice: "mset (sort_Slice lt xs) = mset xs"
  by (simp add: sort_Slice_def mset_foldl_insert_left)

lemma sorted_insert_left:
  fixes f :: "'a \<Rightarrow> 'b::linorder"
  assumes "sorted_wrt (\<lambda>a b. f a \<le> f b) ys"
  shows "sorted_wrt (\<lambda>a b. f a \<le> f b) (insert_left (\<lambda>a b. f a > f b) x ys)"
  using assms
proof (induction ys)
  case Nil
  then show ?case by simp
next
  case (Cons y ys)
  have "set (insert_left (\<lambda>a b. f a > f b) x ys) = insert x (set ys)"
    using mset_insert_left [of "\<lambda>a b. f a > f b" x ys, THEN arg_cong, of set_mset] by simp
  with Cons show ?case by (auto simp: less_imp_le)
qed

lemma sorted_foldl_insert_left:
  fixes f :: "'a \<Rightarrow> 'b::linorder"
  assumes "sorted_wrt (\<lambda>a b. f a \<le> f b) acc"
  shows "sorted_wrt (\<lambda>a b. f a \<le> f b) (foldl (\<lambda>acc x. insert_left (\<lambda>a b. f a > f b) x acc) acc xs)"
  using assms by (induction xs arbitrary: acc) (auto simp: sorted_insert_left)

lemma sorted_sort_Slice:
  fixes f :: "'a \<Rightarrow> 'b::linorder"
  shows "sorted_wrt (\<lambda>a b. f a \<ge> f b) (sort_Slice (\<lambda>a b. f a > f b) xs)"
  unfolding sort_Slice_def sorted_wrt_rev
  by (rule sorted_foldl_insert_left) simp

lemma sorted_desc_unique:
  fixes f :: "'a \<Rightarrow> 'b::linorder"
  assumes "sorted_wrt (\<lambda>a b. f a \<ge> f b) xs" "sorted_wrt (\<lambda>a b. f a \<ge> f b) ys"
    and "distinct xs" "distinct ys" "set xs = set ys" "inj_on f (set xs)"
  shows "xs = ys"
proof -
  have sx: "sorted (rev (map f xs))" and sy: "sorted (rev (map f ys))"
    using assms(1,2) by (simp_all add: sorted_wrt_rev sorted_map rev_map [symmetric] sorted_wrt_map)
  have dx: "distinct (rev (map f xs))" and dy: "distinct (rev (map f ys))"
    using assms(3-6) by (simp_all add: distinct_map)
  have "set (rev (map f xs)) = set (rev (map f ys))" using assms(5) by simp
  from sorted_distinct_set_unique [OF sx dx sy dy this]
  have "map f xs = map f ys" by simp
  moreover have "inj_on f (set xs \<union> set ys)" using assms(5,6) by simp
  ultimately show ?thesis by (simp add: inj_on_map_eq_map)
qed

lemma map_filter_dom: "set ks \<subseteq> dom m \<Longrightarrow> List.map_filter m ks = map (\<lambda>k. the (m k)) ks"
  by (induction ks) (auto simp: List.map_filter_simps)

lemma members_IDs:
  assumes "ring_ok r" "range_order r ks"
  shows "map ID (members r ks) = ks"
proof -
  have sub: "set ks \<subseteq> dom (nodes r)" using assms(2) by (simp add: range_order_def)
  have "map ID (map (\<lambda>k. the (nodes r k)) ks) = ks"
    using sub assms(1) by (induction ks) (auto simp: ring_ok_def)
  then show ?thesis by (simp add: members_def map_filter_dom [OF sub])
qed

lemma members_distinct:
  assumes "ring_ok r" "range_order r ks"
  shows "distinct (members r ks)"
proof -
  have "distinct (map ID (members r ks))"
    using members_IDs [OF assms] assms(2) by (simp add: range_order_def)
  then show ?thesis by (simp add: distinct_map)
qed

lemma members_set:
  assumes "range_order r ks"
  shows "set (members r ks) = ran (nodes r)"
proof -
  have sub: "set ks \<subseteq> dom (nodes r)" using assms by (simp add: range_order_def)
  have "(\<lambda>k. the (nodes r k)) ` dom (nodes r) = ran (nodes r)"
    by (force simp: ran_def dom_def image_iff)
  then show ?thesis
    using assms by (simp add: members_def map_filter_dom [OF sub] range_order_def)
qed

lemma members_length:
  assumes "range_order r ks"
  shows "int (length (members r ks)) = NodeCount r"
proof -
  have sub: "set ks \<subseteq> dom (nodes r)" using assms by (simp add: range_order_def)
  have "card (dom (nodes r)) = length ks"
    using assms by (metis range_order_def distinct_card)
  then show ?thesis by (simp add: members_def map_filter_dom [OF sub] NodeCount_def)
qed

lemma Owners_char:
  assumes "ring_ok r" "range_order r ks" "0 \<le> n"
  shows "\<exists>S. Owners r ks key n = Inr (take (nat n) S) \<and> distinct S \<and> set S = ran (nodes r) \<and>
             int (length S) = NodeCount r \<and>
             sorted_wrt (\<lambda>a b. score key b \<le> score key a) S"
proof -
  define scores where "scores = map (\<lambda>node. (node, hash (key @ ID node))) (members r ks)"
  define srt where "srt = sort_Slice (\<lambda>a b. snd a > snd b) scores"
  define S where "S = map fst srt"
  have ms: "mset srt = mset scores" by (simp add: srt_def mset_sort_Slice)
  have "mset S = mset (map fst scores)" by (simp add: S_def ms)
  also have "map fst scores = members r ks" by (simp add: scores_def comp_def)
  finally have mS: "mset S = mset (members r ks)" .
  have dS: "distinct S"
    using mS members_distinct [OF assms(1,2)] by (metis mset_eq_imp_distinct_iff)
  have sS: "set S = ran (nodes r)"
    using mS members_set [OF assms(2)] by (metis mset_eq_setD)
  have lS: "int (length S) = NodeCount r"
    using mS members_length [OF assms(2)] by (metis mset_eq_length)
  have "sorted_wrt (\<lambda>a b. snd a \<ge> snd b) srt"
    unfolding srt_def by (rule sorted_sort_Slice)
  moreover have "\<And>a. a \<in> set srt \<Longrightarrow> snd a = score key (fst a)"
    using ms [THEN mset_eq_setD] by (auto simp: scores_def score_def)
  ultimately have "sorted_wrt (\<lambda>a b. score key (fst a) \<ge> score key (fst b)) srt"
    by (auto intro: sorted_wrt_mono_rel [rotated])
  then have sorted: "sorted_wrt (\<lambda>a b. score key b \<le> score key a) S"
    by (simp add: S_def sorted_wrt_map)
  have "Owners r ks key n = Inr (take (nat n) S)"
  proof (cases "NodeCount r = 0")
    case True
    then have "S = []" using lS by simp
    then show ?thesis using True by (simp add: Owners_def)
  next
    case False
    have "take (nat (if n > NodeCount r then NodeCount r else n)) S = take (nat n) S"
      using lS by auto
    then show ?thesis
      using False assms(3) NodeCount_nonneg [of r]
      by (simp add: Owners_def Let_def S_def srt_def scores_def members_def take_map)
  qed
  with dS sS lS sorted show ?thesis by blast
qed





lemma ring_ok_AddNode: "ring_ok r \<Longrightarrow> ring_ok (AddNode x addr r)"
  by (auto simp: ring_ok_def AddNode_def)

lemma ring_ok_RemoveNode: "ring_ok r \<Longrightarrow> ring_ok (RemoveNode x r)"
  by (auto simp: ring_ok_def RemoveNode_def)

lemma ring_ok_NewRing: "ring_ok NewRing"
  by (simp add: ring_ok_def NewRing_def)

lemma prefix_filter_take:
  assumes "filter P S' = S"
  shows "prefix (filter P (take n S')) (take n S)"
proof -
  have p: "prefix (filter P (take n S')) S"
    using filter_mono_prefix [OF take_is_prefix, of P n S'] assms by simp
  have "length (filter P (take n S')) \<le> n"
    by (rule order_trans [OF length_filter_le]) simp
  with p show ?thesis
    by (metis prefix_def append_eq_conv_conj take_all_iff take_take min.absorb1 append_take_drop_id prefix_length_prefix take_is_prefix length_take min.cobounded2 nat_le_linear)
qed

lemma hd_filter_eq:
  assumes "xs \<noteq> []" "P (hd xs)"
  shows "hd (filter P xs) = hd xs"
  using assms by (cases xs) auto

text \<open>
  C5 (amended). Let \<open>x\<close> be new to a nonempty membership \<open>M\<close>, \<open>n \<ge> 1\<close>, and let the scores
  of the members of \<open>M\<close> and of \<open>x\<close> under the key be pairwise distinct. Then the primary
  owner of the key changes by \<open>AddNode x\<close> exactly when the score of \<open>x\<close> is greater than the
  maximum of the scores of \<open>M\<close>, and the owners after the change, without \<open>x\<close>, are an
  initial segment of the owners before it: the nodes of \<open>M\<close> keep their relative order.
\<close>

theorem AddNode_primary_owner_change:
  assumes ok: "ring_ok r" and ro: "range_order r ks"
    and ro': "range_order (AddNode x addr r) ks'"
    and fresh: "nodes r x = None" and ne: "NodeCount r \<noteq> 0" and n: "1 \<le> n"
    and inj: "inj_on (score key) (ran (nodes (AddNode x addr r)))"
  shows "((primary_owner (Owners (AddNode x addr r) ks' key n) \<noteq> primary_owner (Owners r ks key n)) \<longleftrightarrow>
            hash (key @ x) > Max ((\<lambda>y. hash (key @ ID y)) ` ran (nodes r))) \<and>
         (\<exists>os os'. Owners r ks key n = Inr os \<and> Owners (AddNode x addr r) ks' key n = Inr os' \<and>
            prefix (filter (\<lambda>y. ID y \<noteq> x) os') os)"
proof -
  define r' where "r' = AddNode x addr r"
  define Nx where "Nx = \<lparr>ID = x, Addr = addr\<rparr>"
  have n0: "0 \<le> n" using n by simp
  have ok': "ring_ok r'" unfolding r'_def by (rule ring_ok_AddNode [OF ok])
  have ran': "ran (nodes r') = insert Nx (ran (nodes r))"
    using fresh by (simp add: r'_def AddNode_def Nx_def)
  have idM: "ID y \<noteq> x" if "y \<in> ran (nodes r)" for y
    using that ok fresh by (auto simp: ran_def ring_ok_def)
  from Owners_char [OF ok ro n0, of key] obtain S where
    S: "Owners r ks key n = Inr (take (nat n) S)" "distinct S" "set S = ran (nodes r)"
       "int (length S) = NodeCount r"
       "sorted_wrt (\<lambda>a b. score key b \<le> score key a) S"
    by blast
  from Owners_char [OF ok' ro' [folded r'_def] n0, of key] obtain S' where
    S': "Owners r' ks' key n = Inr (take (nat n) S')" "distinct S'" "set S' = ran (nodes r')"
       "sorted_wrt (\<lambda>a b. score key b \<le> score key a) S'"
    by blast
  define T where "T = filter (\<lambda>y. ID y \<noteq> x) S'"
  have setT: "set T = set S"
    using S'(3) ran' S(3) idM by (auto simp: T_def Nx_def)
  have "T = S"
  proof (rule sorted_desc_unique [where f = "score key"])
    show "sorted_wrt (\<lambda>a b. score key b \<le> score key a) T"
      unfolding T_def by (rule sorted_wrt_filter [OF S'(4)])
    show "sorted_wrt (\<lambda>a b. score key b \<le> score key a) S" by (rule S(5))
    show "distinct T" using S'(2) by (simp add: T_def)
    show "distinct S" by (rule S(2))
    show "set T = set S" by (rule setT)
    show "inj_on (score key) (set T)"
      using inj setT S(3) ran' unfolding r'_def [symmetric] by (auto intro: inj_on_subset)
  qed
  have Sne: "S \<noteq> []" using S(4) ne by auto
  have S'ne: "S' \<noteq> []" using S'(3) ran' by auto
  have npos: "0 < nat n" using n by simp
  have p: "primary_owner (Owners r ks key n) = Some (hd S)"
    using Sne npos S(1) by (cases S; cases "nat n") (auto simp: primary_owner_def)
  have p': "primary_owner (Owners r' ks' key n) = Some (hd S')"
    using S'ne npos S'(1) by (cases S'; cases "nat n") (auto simp: primary_owner_def)
  have fin: "finite (ran (nodes r))" "ran (nodes r) \<noteq> {}"
    using S(3) Sne by (auto simp flip: S(3))
  have Max_iff: "hash (key @ x) > Max ((\<lambda>y. hash (key @ ID y)) ` ran (nodes r)) \<longleftrightarrow>
                 (\<forall>y \<in> ran (nodes r). score key y < score key Nx)"
    using fin by (simp add: score_def Nx_def)
  have hd_top: "score key y \<le> score key (hd S')" if "y \<in> set S'" for y
    using S'(4) that S'ne by (cases S') auto
  have NxS': "Nx \<in> set S'" using S'(3) ran' by simp
  have NxS: "Nx \<notin> set S" using S(3) idM [of Nx] by (auto simp: Nx_def)
  have "(hd S' \<noteq> hd S) \<longleftrightarrow> (\<forall>y \<in> ran (nodes r). score key y < score key Nx)"
  proof (cases "hd S' = Nx")
    case True
    have "score key y < score key Nx" if "y \<in> ran (nodes r)" for y
    proof -
      have "y \<in> set S'" "y \<noteq> Nx" using that S'(3) ran' NxS S(3) by auto
      then have "score key y \<le> score key Nx" "score key y \<noteq> score key Nx"
        using hd_top True inj NxS' S'(3) unfolding r'_def [symmetric]
        by (auto simp: inj_on_def)
      then show ?thesis by simp
    qed
    moreover have "hd S \<noteq> Nx" using Sne NxS by (metis hd_in_set)
    ultimately show ?thesis using True by simp
  next
    case False
    then have "hd S' \<in> ran (nodes r)"
      using S'ne S'(3) ran' by (metis hd_in_set insertE)
    then have "ID (hd S') \<noteq> x" by (rule idM)
    then have "hd T = hd S'" unfolding T_def using S'ne by (intro hd_filter_eq) auto
    then have eq: "hd S' = hd S" using \<open>T = S\<close> by simp
    have "score key Nx \<le> score key (hd S')" using hd_top NxS' by blast
    then have "\<not> (\<forall>y \<in> ran (nodes r). score key y < score key Nx)"
      using \<open>hd S' \<in> ran (nodes r)\<close> by (auto simp: not_less)
    then show ?thesis using eq by simp
  qed
  then have A: "(primary_owner (Owners r' ks' key n) \<noteq> primary_owner (Owners r ks key n)) \<longleftrightarrow>
            hash (key @ x) > Max ((\<lambda>y. hash (key @ ID y)) ` ran (nodes r))"
    using p p' Max_iff by simp
  have "prefix (filter (\<lambda>y. ID y \<noteq> x) (take (nat n) S')) (take (nat n) S)"
    using \<open>T = S\<close> unfolding T_def by (rule prefix_filter_take)
  then have B: "\<exists>os os'. Owners r ks key n = Inr os \<and> Owners r' ks' key n = Inr os' \<and>
            prefix (filter (\<lambda>y. ID y \<noteq> x) os') os"
    using S(1) S'(1) by simp
  show ?thesis using A B unfolding r'_def by simp
qed

lemma hash_collision_id_a: "hash collision_id_a = 0x79054025255FB1A2"
  by code_simp

lemma hash_collision_id_b: "hash collision_id_b = 0x79054025255FB1A2"
  by code_simp

lemma hash_k_n1: "hash ''kn1'' = 0x98FAA0B2B66260FE"
  by code_simp

lemma hash_k_n2: "hash ''kn2'' = 0xAB7DD0671AABBA55"
  by code_simp

lemma collision_ids_distinct: "collision_id_a \<noteq> collision_id_b" "collision_id_b \<noteq> collision_id_a"
  by (simp_all add: collision_id_a_def collision_id_b_def)


lemma collision_ring_nodes:
  "nodes collision_ring = [collision_id_a \<mapsto> node_a, collision_id_b \<mapsto> node_b]"
  by (simp add: collision_ring_def ring_a_def AddNode_def NewRing_def node_a_def node_b_def)

lemma collision_ring_count: "NodeCount collision_ring = 2"
  by (simp add: NodeCount_def collision_ring_nodes collision_ids_distinct)

lemma collision_ring_range:
  "range_order collision_ring [collision_id_a, collision_id_b]"
  "range_order collision_ring [collision_id_b, collision_id_a]"
  by (auto simp: range_order_def collision_ring_nodes collision_ids_distinct)


lemma Owners_collision_ba:
  "Owners collision_ring [collision_id_b, collision_id_a] [] n =
     (if n < 0 then Inl PanicMakesliceLenOutOfRange else Inr (take (nat n) [node_b, node_a]))"
  by (simp add: Owners_def collision_ring_count collision_ring_nodes collision_ids_distinct
      List.map_filter_simps sort_Slice_def node_a_def node_b_def
      hash_collision_id_a hash_collision_id_b Let_def take_map [symmetric])



text \<open>
  C5, counterexample. Adding \<open>b\<close> to the ring of \<open>a\<close> alone changes the primary owner of the
  empty key when the map is visited in the order \<open>b, a\<close>, although the score of \<open>b\<close> is not
  greater than the maximum of the scores before.
\<close>

theorem AddNode_primary_owner_counterexample:
  "nodes ring_a collision_id_b = None \<and>
   range_order ring_a [collision_id_a] \<and>
   range_order (AddNode collision_id_b ''localhost:8082'' ring_a) [collision_id_b, collision_id_a] \<and>
   \<not> hash ([] @ collision_id_b) > Max ((\<lambda>y. hash ([] @ ID y)) ` ran (nodes ring_a)) \<and>
   primary_owner (Owners (AddNode collision_id_b ''localhost:8082'' ring_a) [collision_id_b, collision_id_a] [] 1)
     \<noteq> primary_owner (Owners ring_a [collision_id_a] [] 1)"
proof -
  have 1: "nodes ring_a = [collision_id_a \<mapsto> node_a]"
    by (simp add: ring_a_def AddNode_def NewRing_def node_a_def)
  have 2: "Owners ring_a [collision_id_a] [] 1 = Inr [node_a]"
    by (simp add: Owners_def NodeCount_def 1 List.map_filter_simps sort_Slice_def Let_def)
  have 3: "range_order ring_a [collision_id_a]"
    by (simp add: range_order_def 1)
  show ?thesis
    using collision_ring_range(2) [unfolded collision_ring_def]
    by (simp add: 1 2 3 collision_ids_distinct hash_collision_id_a hash_collision_id_b
        Owners_collision_ba [unfolded collision_ring_def] primary_owner_def node_a_def node_b_def)
qed

lemma ring_n1_nodes: "nodes ring_n1 = [''n1'' \<mapsto> \<lparr>ID = ''n1'', Addr = ''localhost:8081''\<rparr>]"
  by (simp add: ring_n1_def AddNode_def NewRing_def)

lemma ring_n12_nodes:
  "nodes ring_n12 = [''n1'' \<mapsto> \<lparr>ID = ''n1'', Addr = ''localhost:8081''\<rparr>,
                     ''n2'' \<mapsto> \<lparr>ID = ''n2'', Addr = ''localhost:8082''\<rparr>]"
  by (simp add: ring_n12_def AddNode_def ring_n1_nodes)

lemma ring_n1_ok: "ring_ok ring_n1"
  by (simp add: ring_n1_def ring_ok_AddNode ring_ok_NewRing)


lemma ring_n1_range: "range_order ring_n1 [''n1'']"
  by (simp add: range_order_def ring_n1_nodes)

lemma ring_n1_fresh: "nodes ring_n1 ''n2'' = None"
  by (simp add: ring_n1_nodes)

lemma ring_n1_count: "NodeCount ring_n1 \<noteq> 0"
  by (simp add: NodeCount_def ring_n1_nodes)

lemma ring_n12_range:
  "range_order ring_n12 [''n1'', ''n2'']" "range_order ring_n12 [''n2'', ''n1'']"
  by (simp_all add: range_order_def ring_n12_nodes insert_commute)

lemma ring_n12_inj: "inj_on (score ''k'') (ran (nodes ring_n12))"
proof -
  have "ran (nodes ring_n12) =
      {\<lparr>ID = ''n1'', Addr = ''localhost:8081''\<rparr>, \<lparr>ID = ''n2'', Addr = ''localhost:8082''\<rparr>}"
    unfolding ring_n12_nodes by (simp add: insert_commute)
  then show ?thesis
    by (simp add: score_def hash_k_n1 hash_k_n2)
qed



text \<open>C5, witness: \<open>n2\<close> joins the ring of \<open>n1\<close>, key \<open>k\<close>, \<open>n = 1\<close>.\<close>

theorem AddNode_primary_owner_change_witness:
  "ring_ok ring_n1 \<and> range_order ring_n1 [''n1''] \<and>
   range_order (AddNode ''n2'' ''localhost:8082'' ring_n1) [''n2'', ''n1''] \<and>
   nodes ring_n1 ''n2'' = None \<and> NodeCount ring_n1 \<noteq> 0 \<and> (1::int) \<le> 1 \<and>
   inj_on (score ''k'') (ran (nodes (AddNode ''n2'' ''localhost:8082'' ring_n1))) \<and>
   ((primary_owner (Owners (AddNode ''n2'' ''localhost:8082'' ring_n1) [''n2'', ''n1''] ''k'' 1)
       \<noteq> primary_owner (Owners ring_n1 [''n1''] ''k'' 1)) \<longleftrightarrow>
     hash (''k'' @ ''n2'') > Max ((\<lambda>y. hash (''k'' @ ID y)) ` ran (nodes ring_n1))) \<and>
   (\<exists>os os'. Owners ring_n1 [''n1''] ''k'' 1 = Inr os \<and>
      Owners (AddNode ''n2'' ''localhost:8082'' ring_n1) [''n2'', ''n1''] ''k'' 1 = Inr os' \<and>
      prefix (filter (\<lambda>y. ID y \<noteq> ''n2'') os') os)"
proof -
  have h: "(1::int) \<le> 1" by simp
  note r = ring_n12_range(2) [unfolded ring_n12_def]
  note i = ring_n12_inj [unfolded ring_n12_def]
  from AddNode_primary_owner_change [OF ring_n1_ok ring_n1_range r ring_n1_fresh ring_n1_count h i]
  show ?thesis
    using ring_n1_ok ring_n1_range r ring_n1_fresh ring_n1_count i by simp
qed

section \<open>Properties of the quorum coordinator\<close>

lemma length_sort_Slice: "length (sort_Slice lt xs) = length xs"
  using mset_sort_Slice [of lt xs] by (metis mset_eq_length)

lemma Owners_count:
  assumes "range_order r ks" "0 \<le> n"
  shows "\<exists>os. Owners r ks key n = Inr os \<and> int (length os) = min n (NodeCount r)"
proof -
  have l: "int (length (List.map_filter (nodes r) ks)) = NodeCount r"
    using members_length [OF assms(1)] by (simp add: members_def)
  show ?thesis
    using assms(2) l NodeCount_nonneg [of r]
    by (auto simp: Owners_def Let_def length_sort_Slice)
qed

text \<open>
  Client_write_fails_below_quorum. When the ring has at least one node and fewer nodes than the write quorum, every
  \<open>Client.Set\<close> and every \<open>Client.Delete\<close> returns its quorum error, whatever the replicas
  answer: the owner list has as many elements as the ring, and no more successes can be counted.
\<close>

theorem Client_write_fails_below_quorum:
  assumes "range_order (ring c) ks" "0 < NodeCount (ring c)" "NodeCount (ring c) < writeQuorum c"
  shows "Client_Set c net ks key v ttl = Inl ErrWriteQuorum \<and>
         Client_Delete c net ks key = Inl ErrDeleteQuorum"
proof -
  have "0 \<le> writeQuorum c" using assms(2,3) by simp
  from Owners_count [OF assms(1) this, of key] obtain os where
    os: "Owners (ring c) ks key (writeQuorum c) = Inr os" "int (length os) = NodeCount (ring c)"
    using assms(3) by auto
  have ne: "length os \<noteq> 0" using os(2) assms(2) by auto
  have "int (length (filter P os)) < writeQuorum c" for P
    using length_filter_le [of P os] os(2) assms(3) by linarith
  then show ?thesis
    using os(1) ne by (simp add: Client_Set_def Client_Delete_def Let_def not_le [symmetric])
qed




text \<open>
  C2 (amended). A replica that reports that the key did not exist (\<open>deleted = false\<close>) counts
  as a failure toward the write quorum. With a nonempty owner list, \<open>Client.Delete\<close> succeeds
  exactly when the owners that are connected and report \<open>deleted = true\<close> are at least the
  write quorum; when every owner reports that the key did not exist and the write quorum is
  positive, it returns the quorum error.
\<close>

theorem Client_Delete_not_deleted_is_failure:
  assumes "Owners (ring c) ks key (writeQuorum c) = Inr os" "os \<noteq> []"
  shows "(Client_Delete c net ks key = Inr () \<longleftrightarrow>
           writeQuorum c \<le> int (length (filter (\<lambda>ow. connections c (ID ow) \<noteq> None \<and>
                                   delete_reply net (ID ow) key = DeleteResponse True) os))) \<and>
         ((\<forall>ow \<in> set os. delete_reply net (ID ow) key = DeleteResponse False) \<and> 0 < writeQuorum c
            \<longrightarrow> Client_Delete c net ks key = Inl ErrDeleteQuorum)"
proof -
  have eq: "(deleteFromNode c net nodeID key = Inr ()) \<longleftrightarrow>
        (connections c nodeID \<noteq> None \<and> delete_reply net nodeID key = DeleteResponse True)"
    for nodeID
    by (auto simp: deleteFromNode_def getConnection_def split: option.splits delete_rpc.splits)
  have none: "filter (\<lambda>ow. connections c (ID ow) \<noteq> None \<and>
                  delete_reply net (ID ow) key = DeleteResponse True) os = []"
    if "\<forall>ow \<in> set os. delete_reply net (ID ow) key = DeleteResponse False"
    using that by (auto simp: filter_empty_conv)
  show ?thesis
    using assms none by (auto simp: Client_Delete_def Let_def eq)
qed

lemma ring_n1_count_1: "NodeCount ring_n1 = 1"
  by (simp add: NodeCount_def ring_n1_nodes)


lemma Owners_ring_n1: "Owners ring_n1 [''n1''] ''k'' 1 = Inr [node_n1]"
  by (simp add: Owners_def ring_n1_count_1 ring_n1_nodes List.map_filter_simps sort_Slice_def
      node_n1_def)




text \<open>
  C2, counterexample. One connected replica, write quorum 1; the replica reports that the key
  did not exist. \<open>Client.Delete\<close> returns the quorum error, not success.
\<close>

theorem Client_Delete_absent_key_counterexample:
  "Owners (ring client_one) [''n1''] ''k'' (writeQuorum client_one) = Inr [node_n1] \<and>
   connections client_one ''n1'' = Some ''localhost:8081'' \<and>
   delete_reply net_absent ''n1'' ''k'' = DeleteResponse False \<and>
   Client_Delete client_one net_absent [''n1''] ''k'' = Inl ErrDeleteQuorum"
proof -
  have 1: "Owners (ring client_one) [''n1''] ''k'' (writeQuorum client_one) = Inr [node_n1]"
    by (simp add: client_one_def Owners_ring_n1)
  have "Client_Delete client_one net_absent [''n1''] ''k'' = Inl ErrDeleteQuorum"
    unfolding Client_Delete_def 1
    by (simp add: deleteFromNode_def getConnection_def client_one_def net_absent_def node_n1_def)
  then show ?thesis using 1 by (simp add: client_one_def net_absent_def)
qed

text \<open>C2, witness: the replica of the counterexample.\<close>

theorem Client_Delete_not_deleted_is_failure_witness:
  "Owners (ring client_one) [''n1''] ''k'' (writeQuorum client_one) = Inr [node_n1] \<and>
   [node_n1] \<noteq> [] \<and>
   delete_reply net_absent (ID node_n1) ''k'' = DeleteResponse False \<and>
   0 < writeQuorum client_one \<and>
   (Client_Delete client_one net_absent [''n1''] ''k'' = Inr () \<longleftrightarrow>
      writeQuorum client_one \<le> int (length (filter (\<lambda>ow. connections client_one (ID ow) \<noteq> None \<and>
         delete_reply net_absent (ID ow) ''k'' = DeleteResponse True) [node_n1]))) \<and>
   Client_Delete client_one net_absent [''n1''] ''k'' = Inl ErrDeleteQuorum"
proof -
  have 1: "Owners (ring client_one) [''n1''] ''k'' (writeQuorum client_one) = Inr [node_n1]"
    by (simp add: client_one_def Owners_ring_n1)
  have 2: "[node_n1] \<noteq> []" by simp
  have 3: "delete_reply net_absent (ID node_n1) ''k'' = DeleteResponse False"
    by (simp add: net_absent_def)
  then have all3: "\<forall>ow \<in> set [node_n1]. delete_reply net_absent (ID ow) ''k'' = DeleteResponse False"
    by simp
  have 4: "0 < writeQuorum client_one" by (simp add: client_one_def)
  from Client_Delete_not_deleted_is_failure [OF 1 2, of net_absent] 1 2 3 all3 4 show ?thesis by blast
qed

text \<open>Client_write_fails_below_quorum, witness: one node, write quorum 2, replicas that accept every write.\<close>

theorem Client_write_fails_below_quorum_witness:
  "range_order (ring client_short) [''n1''] \<and> 0 < NodeCount (ring client_short) \<and>
   NodeCount (ring client_short) < writeQuorum client_short \<and>
   Client_Set client_short net_absent [''n1''] ''k'' [0x76] 0 = Inl ErrWriteQuorum \<and>
   Client_Delete client_short net_only_n1 [''n1''] ''k'' = Inl ErrDeleteQuorum"
proof -
  have 1: "range_order (ring client_short) [''n1'']"
    by (simp add: client_short_def ring_n1_range)
  have 2: "0 < NodeCount (ring client_short)" "NodeCount (ring client_short) < writeQuorum client_short"
    by (simp_all add: client_short_def ring_n1_count_1)
  from Client_write_fails_below_quorum [OF 1 2, of net_absent "''k''" "[0x76]" 0] Client_write_fails_below_quorum [OF 1 2, of net_only_n1 "''k''"] 1 2
  show ?thesis by blast
qed

section \<open>Properties of the cache\<close>

lemma path_append: "path f p (as @ bs) q \<longleftrightarrow> (\<exists>r. path f p as r \<and> path f r bs q)"
  by (induction as arbitrary: p) auto

lemma path_upd: "a \<notin> set as \<Longrightarrow> path (f(a := v)) p as q = path f p as q"
  by (induction as arbitrary: p) auto

lemma path_start: "path f p as None \<Longrightarrow> p = lasto (rev as)"
  by (cases as) (auto simp: lasto_def)

lemma path_unlink:
  assumes "distinct (as @ e # bs)" "path f p (as @ e # bs) None"
  shows "path (case lasto as of None \<Rightarrow> f | Some l \<Rightarrow> f(l := f e))
              (case lasto as of None \<Rightarrow> f e | Some l \<Rightarrow> p) (as @ bs) None"
proof (cases as rule: rev_cases)
  case Nil
  with assms show ?thesis by (simp add: lasto_def)
next
  case (snoc as' l)
  from assms(2) snoc have 1: "path f p as' (Some l)" and 2: "f l = Some e"
    and 3: "path f (f e) bs None"
    by (auto simp: path_append)
  have d: "l \<notin> set as'" "l \<notin> set bs" "l \<noteq> e" using assms(1) snoc by auto
  have "path (f(l := f e)) p as' (Some l)" using 1 d by (simp add: path_upd)
  moreover have "path (f(l := f e)) (f e) bs None" using 3 d by (simp add: path_upd)
  ultimately have "path (f(l := f e)) p (as' @ [l] @ bs) None"
    by (auto simp: path_append)
  then show ?thesis using snoc by (simp add: lasto_def)
qed

lemma path_at:
  assumes "path f p (as @ e # bs) None"
  shows "f e = lasto (rev bs)"
  using assms by (auto simp: path_append dest: path_start)

lemma path_subset_reachable: "path f p as q \<Longrightarrow> set as \<subseteq> reachable f p"
proof (induction as arbitrary: q rule: rev_induct)
  case Nil
  then show ?case by simp
next
  case (snoc x xs)
  from snoc.prems have px: "path f p xs (Some x)" by (auto simp: path_append)
  have sub: "set xs \<subseteq> reachable f p" by (rule snoc.IH [OF px])
  have "x \<in> reachable f p"
  proof (cases xs rule: rev_cases)
    case Nil
    with px show ?thesis by (auto intro: reachable.start)
  next
    case (snoc ys y)
    with px have "f y = Some x" by (auto simp: path_append)
    moreover have "y \<in> reachable f p" using sub snoc by auto
    ultimately show ?thesis by (rule reachable.step [rotated])
  qed
  with sub show ?case by simp
qed

lemma path_reachable:
  assumes "path f p as None"
  shows "reachable f p = set as"
proof
  show "reachable f p \<subseteq> set as"
  proof
    fix x assume "x \<in> reachable f p"
    then show "x \<in> set as"
    proof (induction rule: reachable.induct)
      case (start a)
      with assms show ?case by (cases as) auto
    next
      case (step a b)
      then obtain xs ys where as: "as = xs @ a # ys" by (auto simp: in_set_conv_decomp)
      with assms have "f a = lasto (rev ys)" using path_at [of f p xs a ys] by simp
      with step have "lasto (rev ys) = Some b" by simp
      then have "b \<in> set ys" by (cases ys) (auto simp: lasto_def split: if_splits)
      with as show ?case by simp
    qed
  qed
  show "set as \<subseteq> reachable f p"
    using assms by (rule path_subset_reachable)
qed

lemma upd_fields [simp]:
  "heap (upd a f c) = (heap c)(a := f (heap c a))"
  "head (upd a f c) = head c" "tail (upd a f c) = tail c" "entries (upd a f c) = entries c"
  "size_c (upd a f c) = size_c c" "capacity (upd a f c) = capacity c" "fresh (upd a f c) = fresh c"
  by (simp_all add: upd_def)

lemma nexts_simps [simp]:
  "nexts (upd a (\<lambda>x. x\<lparr>Next := v\<rparr>) c) = (nexts c)(a := v)"
  "nexts (upd a (\<lambda>x. x\<lparr>Prev := w\<rparr>) c) = nexts c"
  "nexts (upd a (\<lambda>x. x\<lparr>Value := bs\<rparr>) c) = nexts c"
  "nexts (upd a (\<lambda>x. x\<lparr>ExpiresAt := t\<rparr>) c) = nexts c"
  "nexts (c\<lparr>head := h\<rparr>) = nexts c" "nexts (c\<lparr>tail := h\<rparr>) = nexts c"
  "nexts (c\<lparr>entries := m\<rparr>) = nexts c" "nexts (c\<lparr>size_c := n\<rparr>) = nexts c"
  by (auto simp: nexts_def fun_eq_iff)

lemma prevs_simps [simp]:
  "prevs (upd a (\<lambda>x. x\<lparr>Prev := w\<rparr>) c) = (prevs c)(a := w)"
  "prevs (upd a (\<lambda>x. x\<lparr>Next := v\<rparr>) c) = prevs c"
  "prevs (upd a (\<lambda>x. x\<lparr>Value := bs\<rparr>) c) = prevs c"
  "prevs (upd a (\<lambda>x. x\<lparr>ExpiresAt := t\<rparr>) c) = prevs c"
  "prevs (c\<lparr>head := h\<rparr>) = prevs c" "prevs (c\<lparr>tail := h\<rparr>) = prevs c"
  "prevs (c\<lparr>entries := m\<rparr>) = prevs c" "prevs (c\<lparr>size_c := n\<rparr>) = prevs c"
  by (auto simp: prevs_def fun_eq_iff)

lemma fold_nexts_prevs: "Next (heap c a) = nexts c a" "Prev (heap c a) = prevs c a"
  by (simp_all add: nexts_def prevs_def)

lemma lasto_simps [simp]:
  "lasto [] = None" "lasto (xs @ [x]) = Some x" "lasto (rev (x # xs)) = Some x"
  by (simp_all add: lasto_def)

lemma lasto_Some: "lasto xs = Some l \<Longrightarrow> l \<in> set xs"
  by (auto simp: lasto_def split: if_splits)

lemma lasto_None: "lasto xs = None \<longleftrightarrow> xs = []"
  by (auto simp: lasto_def)

lemma removeEntry_frame:
  "capacity (removeEntry e c) = capacity c" "fresh (removeEntry e c) = fresh c"
  "size_c (removeEntry e c) = size_c c - 1"
  "entries (removeEntry e c) = (entries c)(Key (heap c e) := None)"
  "Key (heap (removeEntry e c) a) = Key (heap c a)"
  "Value (heap (removeEntry e c) a) = Value (heap c a)"
  "ExpiresAt (heap (removeEntry e c) a) = ExpiresAt (heap c a)"
  by (simp_all add: removeEntry_def Let_def fold_nexts_prevs split: option.splits)

lemma removeEntry_dll:
  assumes d: "distinct (as @ e # bs)"
    and n: "path (nexts c) (head c) (as @ e # bs) None"
    and p: "path (prevs c) (tail c) (rev (as @ e # bs)) None"
  shows "path (nexts (removeEntry e c)) (head (removeEntry e c)) (as @ bs) None \<and>
         path (prevs (removeEntry e c)) (tail (removeEntry e c)) (rev (as @ bs)) None"
proof -
  have ne: "nexts c e = lasto (rev bs)" using path_at [OF n] .
  have pe: "prevs c e = lasto as" using path_at [of "prevs c" "tail c" "rev bs" e "rev as"] p by simp
  have d': "distinct (rev bs @ e # rev as)" using d by auto
  note N = path_unlink [OF d n]
  from path_unlink [OF d', of "prevs c" "tail c"] p
  have P: "path (case lasto (rev bs) of None \<Rightarrow> prevs c | Some l \<Rightarrow> (prevs c)(l := prevs c e))
              (case lasto (rev bs) of None \<Rightarrow> prevs c e | Some l \<Rightarrow> tail c) (rev (as @ bs)) None"
    by simp
  have le: "l \<noteq> e" if "lasto as = Some l" for l using lasto_Some [OF that] d by auto
  show ?thesis
    using N P le
    by (cases "lasto as"; cases "lasto (rev bs)")
       (simp_all add: removeEntry_def Let_def fold_nexts_prevs ne pe)
qed

lemma addToFront_frame:
  "capacity (addToFront e c) = capacity c" "fresh (addToFront e c) = fresh c"
  "size_c (addToFront e c) = size_c c" "entries (addToFront e c) = entries c"
  "head (addToFront e c) = Some e"
  "Key (heap (addToFront e c) a) = Key (heap c a)"
  "Value (heap (addToFront e c) a) = Value (heap c a)"
  "ExpiresAt (heap (addToFront e c) a) = ExpiresAt (heap c a)"
  by (simp_all add: addToFront_def Let_def fold_nexts_prevs split: option.splits)

lemma addToFront_dll:
  assumes d: "distinct ps" and e: "e \<notin> set ps"
    and n: "path (nexts c) (head c) ps None"
    and p: "path (prevs c) (tail c) (rev ps) None"
  shows "path (nexts (addToFront e c)) (head (addToFront e c)) (e # ps) None \<and>
         path (prevs (addToFront e c)) (tail (addToFront e c)) (rev (e # ps)) None"
proof (cases ps)
  case Nil
  with n p have "head c = None" "tail c = None" by simp_all
  with Nil show ?thesis by (simp add: addToFront_def Let_def fold_nexts_prevs)
next
  case (Cons h ps')
  with n have hd: "head c = Some h" and n': "path (nexts c) (nexts c h) ps' None" by simp_all
  from p Cons have p1: "path (prevs c) (tail c) (rev ps') (Some h)" and p2: "prevs c h = None"
    by (auto simp: path_append)
  have tl: "tail c \<noteq> None" using p Cons by (cases "rev ps'") (auto simp: path_append)
  have ne: "h \<noteq> e" "e \<notin> set ps'" "h \<notin> set ps'" using d e Cons by auto
  have N: "path ((nexts c)(e := Some h)) (nexts c h) ps' None"
    using n' ne by (simp add: path_upd)
  have P: "path ((prevs c)(e := None, h := Some e)) (tail c) (rev ps') (Some h)"
    using p1 ne by (simp add: path_upd)
  show ?thesis
    using N P hd tl ne Cons
    by (auto simp: addToFront_def Let_def path_append fold_nexts_prevs)
qed

lemma moveToFront_eq:
  "moveToFront e c = (if Some e = head c then c else addToFront e (moveToFront_unlinked e c))"
  by (simp add: moveToFront_def moveToFront_unlinked_def Let_def)

lemma moveToFront_unlinked_frame:
  "capacity (moveToFront_unlinked e c) = capacity c" "fresh (moveToFront_unlinked e c) = fresh c"
  "size_c (moveToFront_unlinked e c) = size_c c" "entries (moveToFront_unlinked e c) = entries c"
  "Key (heap (moveToFront_unlinked e c) a) = Key (heap c a)"
  "Value (heap (moveToFront_unlinked e c) a) = Value (heap c a)"
  "ExpiresAt (heap (moveToFront_unlinked e c) a) = ExpiresAt (heap c a)"
  by (simp_all add: moveToFront_unlinked_def Let_def fold_nexts_prevs split: option.splits)

lemma moveToFront_frame:
  "capacity (moveToFront e c) = capacity c" "fresh (moveToFront e c) = fresh c"
  "size_c (moveToFront e c) = size_c c" "entries (moveToFront e c) = entries c"
  "Key (heap (moveToFront e c) a) = Key (heap c a)"
  "Value (heap (moveToFront e c) a) = Value (heap c a)"
  "ExpiresAt (heap (moveToFront e c) a) = ExpiresAt (heap c a)"
  by (simp_all add: moveToFront_eq moveToFront_unlinked_frame addToFront_frame)

lemma moveToFront_unlinked_dll:
  assumes d: "distinct (as @ e # bs)" and ne: "as \<noteq> []"
    and n: "path (nexts c) (head c) (as @ e # bs) None"
    and p: "path (prevs c) (tail c) (rev (as @ e # bs)) None"
  shows "path (nexts (moveToFront_unlinked e c)) (head (moveToFront_unlinked e c)) (as @ bs) None \<and>
         path (prevs (moveToFront_unlinked e c)) (tail (moveToFront_unlinked e c)) (rev (as @ bs)) None"
proof -
  obtain l where l: "lasto as = Some l" using ne by (auto simp: lasto_def)
  have nxe: "nexts c e = lasto (rev bs)" using path_at [OF n] .
  have pe: "prevs c e = lasto as"
    using path_at [of "prevs c" "tail c" "rev bs" e "rev as"] p by simp
  have d': "distinct (rev bs @ e # rev as)" using d by auto
  note N = path_unlink [OF d n]
  from path_unlink [OF d', of "prevs c" "tail c"] p
  have P: "path (case lasto (rev bs) of None \<Rightarrow> prevs c | Some l \<Rightarrow> (prevs c)(l := prevs c e))
              (case lasto (rev bs) of None \<Rightarrow> prevs c e | Some l \<Rightarrow> tail c) (rev (as @ bs)) None"
    by simp
  have le: "l \<noteq> e" using lasto_Some [OF l] d by auto
  have tl: "tail c = lasto (e # bs)"
    using path_start [OF p] by (simp add: lasto_def)
  have tle: "tail c = Some e \<longleftrightarrow> bs = []"
    using tl d by (auto simp: lasto_def)
  show ?thesis
  proof (cases "lasto (rev bs)")
    case None
    then have "bs = []" by (simp add: lasto_None)
    then show ?thesis
      using N P l le tle None
      by (simp add: moveToFront_unlinked_def Let_def fold_nexts_prevs nxe pe)
  next
    case (Some n)
    then have "bs \<noteq> []" by (auto simp: lasto_def)
    then have "Some e \<noteq> tail c" using tle by auto
    then show ?thesis
      using N P l le Some
      by (simp add: moveToFront_unlinked_def Let_def fold_nexts_prevs nxe pe)
  qed
qed

lemma moveToFront_head: "head (moveToFront e c) = Some e"
  by (auto simp: moveToFront_eq addToFront_frame)

lemma split_at:
  assumes "e \<in> set ps" "distinct ps"
  obtains as bs where "ps = as @ e # bs" "remove1 e ps = as @ bs" "e \<notin> set as" "e \<notin> set bs"
proof -
  from assms(1) obtain as bs where ps: "ps = as @ e # bs" by (auto simp: in_set_conv_decomp)
  with assms(2) have "e \<notin> set as" "e \<notin> set bs" by auto
  then have "remove1 e ps = as @ bs" using ps by (simp add: remove1_append)
  with ps \<open>e \<notin> set as\<close> \<open>e \<notin> set bs\<close> show ?thesis using that by blast
qed

lemma cache_inv_removeEntry:
  assumes inv: "cache_inv c ps" and e: "e \<in> set ps"
  shows "cache_inv (removeEntry e c) (remove1 e ps)"
proof -
  from inv have d: "distinct ps" by (simp add: cache_inv_def)
  from split_at [OF e d] obtain as bs where
    ps: "ps = as @ e # bs" and r: "remove1 e ps = as @ bs" and nin: "e \<notin> set as" "e \<notin> set bs"
    by blast
  have dll: "path (nexts (removeEntry e c)) (head (removeEntry e c)) (as @ bs) None \<and>
         path (prevs (removeEntry e c)) (tail (removeEntry e c)) (rev (as @ bs)) None"
    using inv unfolding cache_inv_def ps by (intro removeEntry_dll) auto
  have idx: "\<forall>k a. entries c k = Some a \<longleftrightarrow> a \<in> set ps \<and> Key (heap c a) = k"
    using inv by (simp add: cache_inv_def)
  have idx': "entries (removeEntry e c) k = Some a \<longleftrightarrow>
                a \<in> set (as @ bs) \<and> Key (heap (removeEntry e c) a) = k" for k a
  proof (cases "k = Key (heap c e)")
    case True
    have "a = e" if "a \<in> set ps" "Key (heap c a) = Key (heap c e)"
      using that idx e by (metis option.inject)
    then show ?thesis using True nin ps by (auto simp: removeEntry_frame)
  next
    case False
    then show ?thesis using idx ps by (auto simp: removeEntry_frame)
  qed
  show ?thesis
    unfolding r cache_inv_def
    using dll idx' inv d ps by (auto simp: removeEntry_frame cache_inv_def)
qed

lemma cache_inv_moveToFront:
  assumes inv: "cache_inv c ps" and e: "e \<in> set ps"
  shows "cache_inv (moveToFront e c) (e # remove1 e ps)"
proof -
  from inv have d: "distinct ps" by (simp add: cache_inv_def)
  from split_at [OF e d] obtain as bs where
    ps: "ps = as @ e # bs" and r: "remove1 e ps = as @ bs" and nin: "e \<notin> set as" "e \<notin> set bs"
    by blast
  have n: "path (nexts c) (head c) (as @ e # bs) None"
    and p: "path (prevs c) (tail c) (rev (as @ e # bs)) None"
    using inv by (simp_all add: cache_inv_def ps)
  have hd: "head c = Some e \<longleftrightarrow> as = []"
    using path_start [OF n] d ps by (cases as) (auto simp: lasto_def)
  show ?thesis
  proof (cases "as = []")
    case True
    then have "moveToFront e c = c" using hd by (simp add: moveToFront_eq)
    then show ?thesis using True inv ps r by simp
  next
    case False
    let ?u = "moveToFront_unlinked e c"
    have m: "moveToFront e c = addToFront e ?u" using False hd by (auto simp: moveToFront_eq)
    have u: "path (nexts ?u) (head ?u) (as @ bs) None \<and> path (prevs ?u) (tail ?u) (rev (as @ bs)) None"
      using d False n p unfolding ps by (intro moveToFront_unlinked_dll) auto
    have dab: "distinct (as @ bs)" "e \<notin> set (as @ bs)" using d ps nin by auto
    have dll: "path (nexts (addToFront e ?u)) (head (addToFront e ?u)) (e # as @ bs) None \<and>
         path (prevs (addToFront e ?u)) (tail (addToFront e ?u)) (rev (e # as @ bs)) None"
      using u by (intro addToFront_dll [OF dab]) auto
    show ?thesis
      unfolding r m cache_inv_def
      using dll dab inv ps
      by (auto simp: addToFront_frame moveToFront_unlinked_frame cache_inv_def)
  qed
qed

lemma cache_inv_NewCache: "cache_inv (NewCache cap) []"
  by (simp add: cache_inv_def NewCache_def)

lemma cache_inv_keys_inj:
  assumes "cache_inv c ps"
  shows "inj_on (\<lambda>a. Key (heap c a)) (set ps)"
proof (rule inj_onI)
  fix a b assume "a \<in> set ps" "b \<in> set ps" "Key (heap c a) = Key (heap c b)"
  then have "entries c (Key (heap c a)) = Some a" "entries c (Key (heap c a)) = Some b"
    using assms by (simp_all add: cache_inv_def)
  then show "a = b" by simp
qed

lemma cache_inv_entry:
  assumes "cache_inv c ps" "entries c k = Some e"
  shows "e \<in> set ps" "Key (heap c e) = k"
  using assms by (simp_all add: cache_inv_def)

lemma cache_inv_dom:
  assumes "cache_inv c ps"
  shows "dom (entries c) = set (keys_of c ps)"
  using assms by (auto simp: cache_inv_def keys_of_def dom_def)

lemma cache_inv_length:
  assumes "cache_inv c ps"
  shows "size_c c = int (length ps)"
  using assms by (simp add: cache_inv_def)

lemma upd_Key:
  "Key (heap (upd a (\<lambda>x. x\<lparr>Value := v\<rparr>) c) b) = Key (heap c b)"
  "Key (heap (upd a (\<lambda>x. x\<lparr>ExpiresAt := t\<rparr>) c) b) = Key (heap c b)"
  by simp_all

lemma cache_inv_upd_Value:
  "cache_inv (upd a (\<lambda>x. x\<lparr>Value := v\<rparr>) c) ps = cache_inv c ps"
  unfolding cache_inv_def upd_Key by simp

lemma cache_inv_upd_ExpiresAt:
  "cache_inv (upd a (\<lambda>x. x\<lparr>ExpiresAt := t\<rparr>) c) ps = cache_inv c ps"
  unfolding cache_inv_def upd_Key by simp

lemma map_remove1_inj:
  assumes "inj_on f (set xs)" "x \<in> set xs"
  shows "map f (remove1 x xs) = remove1 (f x) (map f xs)"
  using assms by (induction xs) (auto simp: inj_on_def)

lemma keys_of_moveToFront:
  assumes "cache_inv c ps" "entries c k = Some e"
  shows "keys_of (moveToFront e c) (e # remove1 e ps) = k # remove1 k (keys_of c ps)"
  using cache_inv_entry [OF assms] map_remove1_inj [OF cache_inv_keys_inj [OF assms(1)], of e]
  by (simp add: keys_of_def moveToFront_frame)

lemma keys_of_removeEntry:
  assumes "cache_inv c ps" "e \<in> set ps"
  shows "keys_of (removeEntry e c) (remove1 e ps) = remove1 (Key (heap c e)) (keys_of c ps)"
  using map_remove1_inj [OF cache_inv_keys_inj [OF assms(1)] assms(2)]
  by (simp add: keys_of_def removeEntry_frame)

lemma Cache_Set_existing:
  assumes inv: "cache_inv c ps" and e: "entries c k = Some e"
  shows "cache_inv (Cache_Set now k v ttl c) (e # remove1 e ps) \<and>
         keys_of (Cache_Set now k v ttl c) (e # remove1 e ps) = k # remove1 k (keys_of c ps) \<and>
         capacity (Cache_Set now k v ttl c) = capacity c \<and>
         size_c (Cache_Set now k v ttl c) = size_c c"
proof -
  let ?c2 = "upd e (\<lambda>x. x\<lparr>ExpiresAt := expiry now ttl\<rparr>) (upd e (\<lambda>x. x\<lparr>Value := v\<rparr>) c)"
  have s: "Cache_Set now k v ttl c = moveToFront e ?c2"
    using e by (simp add: Cache_Set_def Let_def)
  have inv2: "cache_inv ?c2 ps" using inv by (simp add: cache_inv_upd_Value cache_inv_upd_ExpiresAt)
  have e2: "entries ?c2 k = Some e" using e by simp
  have k2: "keys_of ?c2 ps = keys_of c ps" by (simp add: keys_of_def)
  show ?thesis
    unfolding s
    using cache_inv_moveToFront [OF inv2 cache_inv_entry(1) [OF inv e]]
      keys_of_moveToFront [OF inv2 e2] k2
    by (simp add: moveToFront_frame)
qed

lemma Cache_Set_new_eq:
  assumes "entries c k = None"
  shows "Cache_Set now k v ttl c =
     (let c4 = Cache_Set_inserted now k v ttl c
      in if size_c c4 > capacity c4 then evictLRU c4 else c4)"
  using assms by (simp add: Cache_Set_def Cache_Set_inserted_def Let_def)

lemma Cache_Set_inserted_inv:
  assumes inv: "cache_inv c ps" and e: "entries c k = None"
  shows "cache_inv (Cache_Set_inserted now k v ttl c) (fresh c # ps) \<and>
         keys_of (Cache_Set_inserted now k v ttl c) (fresh c # ps) = k # keys_of c ps \<and>
         capacity (Cache_Set_inserted now k v ttl c) = capacity c"
proof -
  define c2 where "c2 = c\<lparr>heap := (heap c)(fresh c :=
                   \<lparr>Key = k, Value = v, ExpiresAt = expiry now ttl, Prev = None, Next = None\<rparr>),
                 fresh := fresh c + 1, entries := (entries c)(k \<mapsto> fresh c)\<rparr>"
  have s: "Cache_Set_inserted now k v ttl c = (addToFront (fresh c) c2)\<lparr>size_c := size_c c + 1\<rparr>"
    by (simp add: Cache_Set_inserted_def Let_def c2_def addToFront_frame)
  have fr: "fresh c \<notin> set ps" using inv by (auto simp: cache_inv_def)
  have d: "distinct ps" using inv by (simp add: cache_inv_def)
  have nx: "nexts c2 = (nexts c)(fresh c := None)" and pv: "prevs c2 = (prevs c)(fresh c := None)"
    by (auto simp: c2_def nexts_def prevs_def fun_eq_iff)
  have ht: "head c2 = head c" "tail c2 = tail c" by (simp_all add: c2_def)
  have n: "path (nexts c2) (head c2) ps None"
    using inv fr by (simp add: nx ht path_upd cache_inv_def)
  have p: "path (prevs c2) (tail c2) (rev ps) None"
    using inv fr by (simp add: pv ht path_upd cache_inv_def)
  note dll = addToFront_dll [OF d fr n p]
  have key: "Key (heap c2 a) = (if a = fresh c then k else Key (heap c a))" for a
    by (simp add: c2_def)
  have idx: "\<forall>k a. entries c k = Some a \<longleftrightarrow> a \<in> set ps \<and> Key (heap c a) = k"
    using inv by (simp add: cache_inv_def)
  have nk: "Key (heap c a) \<noteq> k" if "a \<in> set ps" for a
    using idx e that by (metis option.distinct(1))
  have idx': "entries c2 k' = Some a \<longleftrightarrow> a \<in> set (fresh c # ps) \<and> Key (heap c2 a) = k'" for k' a
    using idx fr nk by (auto simp: c2_def)
  have ko: "keys_of c2 ps = keys_of c ps"
    using fr by (auto simp: keys_of_def key)
  have inv': "cache_inv ((addToFront (fresh c) c2)\<lparr>size_c := size_c c + 1\<rparr>) (fresh c # ps)"
    unfolding cache_inv_def
    using dll d fr idx' inv
    by (auto simp: addToFront_frame cache_inv_def c2_def less_Suc_eq)
  have "keys_of ((addToFront (fresh c) c2)\<lparr>size_c := size_c c + 1\<rparr>) (fresh c # ps) = k # keys_of c ps"
    using ko by (simp add: keys_of_def addToFront_frame key)
  moreover have "capacity ((addToFront (fresh c) c2)\<lparr>size_c := size_c c + 1\<rparr>) = capacity c"
    by (simp add: addToFront_frame c2_def)
  ultimately show ?thesis using inv' unfolding s by simp
qed

lemma cache_inv_tail:
  assumes "cache_inv c ps"
  shows "tail c = lasto ps"
  using assms path_start [of "prevs c" "tail c" "rev ps"] by (simp add: cache_inv_def)

lemma cache_inv_head:
  assumes "cache_inv c ps"
  shows "head c = lasto (rev ps)"
  using assms path_start [of "nexts c" "head c" ps] by (simp add: cache_inv_def)

lemma evictLRU_inv:
  assumes inv: "cache_inv c ps" and ne: "ps \<noteq> []"
  shows "cache_inv (evictLRU c) (butlast ps) \<and> keys_of (evictLRU c) (butlast ps) = butlast (keys_of c ps) \<and>
         capacity (evictLRU c) = capacity c \<and> size_c (evictLRU c) = size_c c - 1"
proof -
  have t: "tail c = Some (last ps)" using cache_inv_tail [OF inv] ne by (simp add: lasto_def)
  have l: "last ps \<in> set ps" using ne by simp
  have d: "distinct ps" using inv by (simp add: cache_inv_def)
  have r: "remove1 (last ps) ps = butlast ps"
    using d ne by (metis append_butlast_last_id distinct_append not_distinct_conv_prefix remove1_append remove1.simps append_Nil2 disjoint_iff in_set_conv_decomp list.set_intros(1))
  show ?thesis
    using cache_inv_removeEntry [OF inv l] keys_of_removeEntry [OF inv l] r t
    by (simp add: evictLRU_def removeEntry_frame keys_of_def map_butlast)
qed

lemma keys_of_length [simp]: "length (keys_of c ps) = length ps"
  by (simp add: keys_of_def)

lemma Cache_Set_step:
  assumes inv: "cache_inv c ps" and sz: "size_c c \<le> capacity c" and cap: "1 \<le> capacity c"
  shows "\<exists>ps'. cache_inv (Cache_Set now k v ttl c) ps' \<and>
           keys_of (Cache_Set now k v ttl c) ps' =
             take (nat (capacity c)) (k # remove1 k (keys_of c ps)) \<and>
           capacity (Cache_Set now k v ttl c) = capacity c \<and>
           size_c (Cache_Set now k v ttl c) \<le> capacity (Cache_Set now k v ttl c)"
proof (cases "entries c k")
  case (Some e)
  have len: "length ps \<le> nat (capacity c)" using sz cache_inv_length [OF inv] by simp
  have "k \<in> set (keys_of c ps)" using cache_inv_dom [OF inv] Some by auto
  then have "length (remove1 k (keys_of c ps)) = length ps - 1" by (simp add: length_remove1)
  moreover have "ps \<noteq> []" using cache_inv_entry(1) [OF inv Some] by auto
  ultimately have "take (nat (capacity c)) (k # remove1 k (keys_of c ps)) = k # remove1 k (keys_of c ps)"
    using len by simp
  with Cache_Set_existing [OF inv Some, of now v ttl] sz show ?thesis
    by (intro exI [of _ "e # remove1 e ps"]) simp
next
  case None
  let ?c4 = "Cache_Set_inserted now k v ttl c"
  note ins = Cache_Set_inserted_inv [OF inv None, of now v ttl]
  have s4: "size_c ?c4 = int (length ps) + 1" using ins cache_inv_length [of ?c4 "fresh c # ps"] by simp
  have "k \<notin> set (keys_of c ps)" using cache_inv_dom [OF inv] None by auto
  then have rm: "remove1 k (keys_of c ps) = keys_of c ps" by (simp add: remove1_idem)
  have len: "int (length ps) \<le> capacity c" using sz cache_inv_length [OF inv] by simp
  show ?thesis
  proof (cases "size_c ?c4 > capacity ?c4")
    case True
    then have eq: "int (length ps) = capacity c" using s4 ins len by simp
    have ne: "fresh c # ps \<noteq> []" by simp
    note ev = evictLRU_inv [OF conjunct1 [OF ins] ne]
    have "nat (capacity c) = length ps" using eq by simp
    then have "butlast (k # keys_of c ps) = take (nat (capacity c)) (k # keys_of c ps)"
      by (simp add: butlast_conv_take del: butlast.simps take_Cons')
    then show ?thesis
      using ev ins True s4 eq rm
      by (intro exI [of _ "butlast (fresh c # ps)"]) (simp add: Cache_Set_new_eq [OF None] Let_def)
  next
    case False
    then have "length ps + 1 \<le> nat (capacity c)" using s4 ins by simp
    then have "take (nat (capacity c)) (k # keys_of c ps) = k # keys_of c ps" by simp
    then show ?thesis
      using ins False rm
      by (intro exI [of _ "fresh c # ps"]) (simp add: Cache_Set_new_eq [OF None] Let_def)
  qed
qed

lemma cache_ok_NewCache: "1 \<le> cap \<Longrightarrow> cache_ok (NewCache cap)"
  using cache_inv_NewCache [of cap] by (auto simp: cache_ok_def NewCache_def)

lemma cache_ok_removeEntry:
  assumes "cache_ok c" "entries c k = Some e"
  shows "cache_ok (removeEntry e c)"
proof -
  from assms obtain ps where inv: "cache_inv c ps" by (auto simp: cache_ok_def)
  from cache_inv_removeEntry [OF inv cache_inv_entry(1) [OF inv assms(2)]] assms(1)
  show ?thesis by (auto simp: cache_ok_def removeEntry_frame)
qed

lemma cache_ok_moveToFront:
  assumes "cache_ok c" "entries c k = Some e"
  shows "cache_ok (moveToFront e c)"
proof -
  from assms obtain ps where inv: "cache_inv c ps" by (auto simp: cache_ok_def)
  from cache_inv_moveToFront [OF inv cache_inv_entry(1) [OF inv assms(2)]] assms(1)
  show ?thesis by (auto simp: cache_ok_def moveToFront_frame)
qed

lemma cache_ok_Cleanup_loop:
  assumes "cache_ok c"
  shows "cache_ok (snd (Cleanup_loop now ks (removed, c)))"
  using assms
proof (induction ks arbitrary: removed c)
  case Nil
  then show ?case by simp
next
  case (Cons k ks)
  show ?case
  proof (cases "entries c k")
    case None
    with Cons show ?thesis by simp
  next
    case (Some e)
    with Cons cache_ok_removeEntry [OF Cons.prems Some] show ?thesis by simp
  qed
qed

lemma cache_ok_Clear:
  assumes "cache_ok c"
  shows "cache_ok (Cache_Clear c)"
proof -
  have "cache_inv (Cache_Clear c) []"
    by (simp add: cache_inv_def Cache_Clear_def)
  then show ?thesis using assms by (auto simp: cache_ok_def Cache_Clear_def)
qed

lemma cache_ok_Set:
  assumes "cache_ok c"
  shows "cache_ok (Cache_Set now k v ttl c)"
proof -
  from assms obtain ps where inv: "cache_inv c ps" and sz: "size_c c \<le> capacity c"
    and cap: "1 \<le> capacity c" by (auto simp: cache_ok_def)
  from Cache_Set_step [OF inv sz cap, of now k v ttl] cap show ?thesis
    by (auto simp: cache_ok_def)
qed

lemma cache_ok_apply_op:
  assumes "cache_ok c"
  shows "cache_ok (apply_op op c)"
proof (cases op)
  case (OpGet now key)
  then show ?thesis
    using assms cache_ok_removeEntry [OF assms] cache_ok_moveToFront [OF assms]
    by (auto simp: Cache_Get_def Let_def split: option.splits)
next
  case (OpSet now key v ttl)
  then show ?thesis using cache_ok_Set [OF assms] by simp
next
  case (OpDelete key)
  then show ?thesis
    using assms cache_ok_removeEntry [OF assms]
    by (auto simp: Cache_Delete_def split: option.splits)
next
  case (OpCleanup now ks)
  then show ?thesis using cache_ok_Cleanup_loop [OF assms] by (simp add: Cache_Cleanup_def)
next
  case OpClear
  then show ?thesis using cache_ok_Clear [OF assms] by simp
qed

lemma cache_ok_run_ops:
  assumes "cache_ok c"
  shows "cache_ok (run_ops ops c)"
  using assms unfolding run_ops_def
  by (induction ops arbitrary: c) (auto simp: cache_ok_apply_op)

lemma cache_inv_counts:
  assumes inv: "cache_inv c ps"
  shows "int (card (reachable (nexts c) (head c))) = size_c c"
    and "int (card (reachable (prevs c) (tail c))) = size_c c"
    and "int (card (dom (entries c))) = size_c c"
proof -
  have d: "distinct ps" and n: "path (nexts c) (head c) ps None"
    and p: "path (prevs c) (tail c) (rev ps) None" and s: "size_c c = int (length ps)"
    using inv by (simp_all add: cache_inv_def)
  show "int (card (reachable (nexts c) (head c))) = size_c c"
    using path_reachable [OF n] d s by (simp add: distinct_card)
  show "int (card (reachable (prevs c) (tail c))) = size_c c"
    using path_reachable [OF p] d s by (simp add: distinct_card)
  have "card (dom (entries c)) = card ((\<lambda>a. Key (heap c a)) ` set ps)"
    using cache_inv_dom [OF inv] by (simp add: keys_of_def)
  also have "\<dots> = card (set ps)" by (rule card_image [OF cache_inv_keys_inj [OF inv]])
  finally show "int (card (dom (entries c))) = size_c c" using d s by (simp add: distinct_card)
qed

text \<open>
  Cache_size_invariant. For a cache created with capacity at least 1, after every sequence of public
  operations (\<open>Get\<close>, \<open>Set\<close>, \<open>Delete\<close>, \<open>Cleanup\<close>, \<open>Clear\<close>) the size equals the number
  of entries reachable from \<open>head\<close> by \<open>Next\<close>, the number reachable from \<open>tail\<close> by \<open>Prev\<close>
  and the number of keys in the index, and it is at most the capacity. The sequence is
  arbitrary, so this holds after each of its operations.
\<close>

theorem Cache_size_invariant:
  assumes "1 \<le> cap"
  shows "int (card (reachable (nexts (run_ops ops (NewCache cap))) (head (run_ops ops (NewCache cap)))))
           = size_c (run_ops ops (NewCache cap)) \<and>
         int (card (reachable (prevs (run_ops ops (NewCache cap))) (tail (run_ops ops (NewCache cap)))))
           = size_c (run_ops ops (NewCache cap)) \<and>
         int (card (dom (entries (run_ops ops (NewCache cap))))) = size_c (run_ops ops (NewCache cap)) \<and>
         size_c (run_ops ops (NewCache cap)) \<le> capacity (run_ops ops (NewCache cap))"
proof -
  have ok: "cache_ok (run_ops ops (NewCache cap))"
    by (rule cache_ok_run_ops [OF cache_ok_NewCache [OF assms]])
  then obtain ps where "cache_inv (run_ops ops (NewCache cap)) ps" by (auto simp: cache_ok_def)
  from cache_inv_counts [OF this] ok show ?thesis by (simp add: cache_ok_def)
qed

text \<open>
  Cache_Get_behaviour. \<open>Get\<close> on a cache that satisfies the invariant: with no entry for the key it
  returns \<open>found = false\<close> and leaves the cache as it is; with an expired entry it removes the
  entry in the same call and returns \<open>found = false\<close>; otherwise it moves the entry to the head
  of the list and returns the stored value with \<open>found = true\<close>.
\<close>

theorem Cache_Get_behaviour:
  assumes inv: "cache_inv c ps"
  shows "(entries c key = None \<longrightarrow> Cache_Get now key c = (([], False), c)) \<and>
         (\<forall>e. entries c key = Some e \<and> expired now (heap c e) \<longrightarrow>
              fst (Cache_Get now key c) = ([], False) \<and>
              entries (snd (Cache_Get now key c)) key = None \<and>
              cache_inv (snd (Cache_Get now key c)) (remove1 e ps)) \<and>
         (\<forall>e. entries c key = Some e \<and> \<not> expired now (heap c e) \<longrightarrow>
              fst (Cache_Get now key c) = (Value (heap c e), True) \<and>
              head (snd (Cache_Get now key c)) = Some e \<and>
              cache_inv (snd (Cache_Get now key c)) (e # remove1 e ps))"
proof (intro conjI allI impI)
  show "Cache_Get now key c = (([], False), c)" if "entries c key = None"
    using that by (simp add: Cache_Get_def)
next
  fix e assume a: "entries c key = Some e \<and> expired now (heap c e)"
  then have g: "Cache_Get now key c = (([], False), removeEntry e c)"
    by (simp add: Cache_Get_def)
  note el = cache_inv_entry [OF inv conjunct1 [OF a]]
  show "fst (Cache_Get now key c) = ([], False)" by (simp add: g)
  show "entries (snd (Cache_Get now key c)) key = None"
    using el by (simp add: g removeEntry_frame)
  show "cache_inv (snd (Cache_Get now key c)) (remove1 e ps)"
    using cache_inv_removeEntry [OF inv el(1)] by (simp add: g)
next
  fix e assume a: "entries c key = Some e \<and> \<not> expired now (heap c e)"
  then have g: "Cache_Get now key c = ((Value (heap (moveToFront e c) e), True), moveToFront e c)"
    by (simp add: Cache_Get_def Let_def)
  note el = cache_inv_entry [OF inv conjunct1 [OF a]]
  show "fst (Cache_Get now key c) = (Value (heap c e), True)" by (simp add: g moveToFront_frame)
  show "head (snd (Cache_Get now key c)) = Some e" by (simp add: g moveToFront_head)
  show "cache_inv (snd (Cache_Get now key c)) (e # remove1 e ps)"
    using cache_inv_moveToFront [OF inv el(1)] by (simp add: g)
qed

lemma take_remove1_notin:
  "x \<notin> set (take m xs) \<Longrightarrow> take m (remove1 x xs) = take m xs"
proof (induction xs arbitrary: m)
  case Nil
  then show ?case by simp
next
  case (Cons y ys)
  then show ?case by (cases m) auto
qed

lemma lru_step:
  assumes t: "take (length done) ks = take C (rev done)" and k: "k \<notin> set done" and C: "1 \<le> C"
  shows "take (Suc (length done)) (take C (k # remove1 k ks)) = take C (k # rev done)"
proof -
  obtain C' where C': "C = Suc C'" using C by (cases C) auto
  let ?n = "length done"
  have "set (take ?n ks) \<subseteq> set done"
    unfolding t using set_take_subset [of C "rev done"] by simp
  then have "k \<notin> set (take ?n ks)" using k by auto
  then have "k \<notin> set (take (min ?n C') ks)"
    using set_take_subset_set_take [of "min ?n C'" ?n ks] by auto
  then have "take (min ?n C') (remove1 k ks) = take (min ?n C') ks"
    by (rule take_remove1_notin)
  also have "\<dots> = take C' (take ?n ks)" by (simp add: min.commute)
  also have "\<dots> = take C' (rev done)" unfolding t by (simp add: C')
  finally have "take (min ?n C') (remove1 k ks) = take C' (rev done)" .
  then show ?thesis by (simp add: C' min.commute)
qed

lemma Set_all_prefix:
  assumes "cache_inv c ps" "size_c c \<le> capacity c" "1 \<le> capacity c"
    and "take (length done) (keys_of c ps) = take (nat (capacity c)) (rev done)"
    and "distinct (done @ set_keys sets)"
  shows "\<exists>ps'. cache_inv (Set_all sets c) ps' \<and>
           take (length (done @ set_keys sets)) (keys_of (Set_all sets c) ps') =
             take (nat (capacity c)) (rev (done @ set_keys sets)) \<and>
           capacity (Set_all sets c) = capacity c \<and>
           size_c (Set_all sets c) \<le> capacity c"
  using assms
proof (induction sets arbitrary: c ps "done")
  case Nil
  then show ?case by (auto simp: set_keys_def)
next
  case (Cons s rest)
  obtain now k v ttl where s: "s = (now, k, v, ttl)" by (cases s) auto
  let ?c1 = "Cache_Set now k v ttl c"
  from Cache_Set_step [OF Cons.prems(1-3), of now k v ttl] obtain ps1 where
    1: "cache_inv ?c1 ps1"
       "keys_of ?c1 ps1 = take (nat (capacity c)) (k # remove1 k (keys_of c ps))"
       "capacity ?c1 = capacity c" "size_c ?c1 \<le> capacity ?c1"
    by blast
  have kd: "k \<notin> set done" and d': "distinct ((done @ [k]) @ set_keys rest)"
    using Cons.prems(5) by (auto simp: s set_keys_def)
  have C: "1 \<le> nat (capacity c)" using Cons.prems(3) by simp
  have t1: "take (length (done @ [k])) (keys_of ?c1 ps1) = take (nat (capacity ?c1)) (rev (done @ [k]))"
    using lru_step [OF Cons.prems(4) kd C] by (simp add: 1)
  have cap1: "1 \<le> capacity ?c1" using Cons.prems(3) 1(3) by simp
  from Cons.IH [OF 1(1) 1(4) cap1 t1 d'] show ?case
    by (simp add: s 1(3) set_keys_def)
qed

text \<open>
  Cache_Set_keeps_last_inserted. Starting from any cache that satisfies the invariant, with capacity \<open>C \<ge> 1\<close>: after
  \<open>N > C\<close> calls of \<open>Set\<close> on pairwise distinct keys, with nothing in between, the keys in the
  cache are exactly the last \<open>C\<close> keys set. This holds for every ttl, in particular for keys
  that never expire.
\<close>

theorem Cache_Set_keeps_last_inserted:
  assumes ok: "cache_ok c" and d: "distinct (set_keys sets)"
    and n: "capacity c < int (length sets)"
  shows "dom (entries (Set_all sets c)) =
           set (drop (length sets - nat (capacity c)) (set_keys sets))"
proof -
  from ok obtain ps where inv: "cache_inv c ps" and sz: "size_c c \<le> capacity c"
    and cap: "1 \<le> capacity c"
    by (auto simp: cache_ok_def)
  have d0: "distinct ([] @ set_keys sets)" using d by simp
  have t0: "take (length []) (keys_of c ps) = take (nat (capacity c)) (rev [])" by simp
  from Set_all_prefix [OF inv sz cap t0 d0] obtain ps' where
    1: "cache_inv (Set_all sets c) ps'"
       "take (length (set_keys sets)) (keys_of (Set_all sets c) ps') =
          take (nat (capacity c)) (rev (set_keys sets))"
       "capacity (Set_all sets c) = capacity c" "size_c (Set_all sets c) \<le> capacity c"
    by auto
  have "length ps' \<le> length (set_keys sets)"
    using cache_inv_length [OF 1(1)] 1(4) n by (simp add: set_keys_def)
  then have "keys_of (Set_all sets c) ps' = take (nat (capacity c)) (rev (set_keys sets))"
    using 1(2) by simp
  then have "set (keys_of (Set_all sets c) ps') =
      set (drop (length sets - nat (capacity c)) (set_keys sets))"
    by (simp add: take_rev set_keys_def)
  then show ?thesis using cache_inv_dom [OF 1(1)] by simp
qed

lemma Cache_Set_NewCache:
  assumes "1 \<le> cap"
  shows "cache_inv (Cache_Set now k v ttl (NewCache cap)) [0]"
    and "entries (Cache_Set now k v ttl (NewCache cap)) = [k \<mapsto> 0]"
    and "heap (Cache_Set now k v ttl (NewCache cap)) 0 =
          \<lparr>Key = k, Value = v, ExpiresAt = expiry now ttl, Prev = None, Next = None\<rparr>"
proof -
  have e: "entries (NewCache cap) k = None" by (simp add: NewCache_def)
  have s: "Cache_Set now k v ttl (NewCache cap) = Cache_Set_inserted now k v ttl (NewCache cap)"
    using assms
    by (simp add: Cache_Set_new_eq [OF e] Let_def Cache_Set_inserted_def addToFront_frame)
       (simp add: NewCache_def)
  have f: "fresh (NewCache cap) = 0" by (simp add: NewCache_def)
  show "cache_inv (Cache_Set now k v ttl (NewCache cap)) [0]"
    using Cache_Set_inserted_inv [OF cache_inv_NewCache e, of now v ttl] by (simp add: s f)
  show "entries (Cache_Set now k v ttl (NewCache cap)) = [k \<mapsto> 0]"
    unfolding s by (simp add: Cache_Set_inserted_def Let_def addToFront_frame) (simp add: NewCache_def)
  show "heap (Cache_Set now k v ttl (NewCache cap)) 0 =
          \<lparr>Key = k, Value = v, ExpiresAt = expiry now ttl, Prev = None, Next = None\<rparr>"
    unfolding s by (simp add: Cache_Set_inserted_def Let_def addToFront_def NewCache_def)
qed

text \<open>Cache_size_invariant, witness: capacity 2 and a sequence that uses every operation.\<close>

theorem Cache_size_invariant_witness:
  "(1::int) \<le> 2 \<and>
   int (card (reachable (nexts (run_ops example_ops (NewCache 2))) (head (run_ops example_ops (NewCache 2)))))
           = size_c (run_ops example_ops (NewCache 2)) \<and>
   int (card (reachable (prevs (run_ops example_ops (NewCache 2))) (tail (run_ops example_ops (NewCache 2)))))
           = size_c (run_ops example_ops (NewCache 2)) \<and>
   int (card (dom (entries (run_ops example_ops (NewCache 2))))) = size_c (run_ops example_ops (NewCache 2)) \<and>
   size_c (run_ops example_ops (NewCache 2)) \<le> capacity (run_ops example_ops (NewCache 2))"
proof -
  have h: "(1::int) \<le> 2" by simp
  from Cache_size_invariant [OF h, of example_ops] h show ?thesis by blast
qed

text \<open>Cache_Get_behaviour, witness: a missing key, a live entry, and an entry whose expiry has passed.\<close>

theorem Cache_Get_behaviour_witness:
  "cache_inv cache_a [0] \<and>
   entries cache_a ''b'' = None \<and> Cache_Get 7 ''b'' cache_a = (([], False), cache_a) \<and>
   entries cache_a ''a'' = Some 0 \<and> \<not> expired 7 (heap cache_a 0) \<and>
   fst (Cache_Get 7 ''a'' cache_a) = ([1], True) \<and> head (snd (Cache_Get 7 ''a'' cache_a)) = Some 0 \<and>
   cache_inv cache_a_ttl [0] \<and>
   entries cache_a_ttl ''a'' = Some 0 \<and> expired 7 (heap cache_a_ttl 0) \<and>
   fst (Cache_Get 7 ''a'' cache_a_ttl) = ([], False) \<and>
   entries (snd (Cache_Get 7 ''a'' cache_a_ttl)) ''a'' = None"
proof -
  have h: "(1::int) \<le> 2" by simp
  note a = Cache_Set_NewCache [OF h, of 0 "''a''" "[1]" 0, folded cache_a_def]
  note b = Cache_Set_NewCache [OF h, of 0 "''a''" "[1]" 5, folded cache_a_ttl_def]
  have 1: "entries cache_a ''b'' = None" "entries cache_a ''a'' = Some 0"
    "\<not> expired 7 (heap cache_a 0)" "Value (heap cache_a 0) = [1]"
    by (simp_all add: a expired_def expiry_def)
  have 2: "entries cache_a_ttl ''a'' = Some 0" "expired 7 (heap cache_a_ttl 0)"
    by (simp_all add: b expired_def expiry_def)
  from Cache_Get_behaviour [OF a(1), of "''b''" 7] 1(1)
  have g1: "Cache_Get 7 ''b'' cache_a = (([], False), cache_a)" by blast
  from Cache_Get_behaviour [OF a(1), of "''a''" 7] 1(2,3)
  have g2: "fst (Cache_Get 7 ''a'' cache_a) = (Value (heap cache_a 0), True) \<and>
            head (snd (Cache_Get 7 ''a'' cache_a)) = Some 0" by blast
  from Cache_Get_behaviour [OF b(1), of "''a''" 7] 2
  have g3: "fst (Cache_Get 7 ''a'' cache_a_ttl) = ([], False) \<and>
            entries (snd (Cache_Get 7 ''a'' cache_a_ttl)) ''a'' = None" by blast
  show ?thesis using a(1) b(1) 1 2 g1 g2 g3 by simp
qed

text \<open>Cache_Set_keeps_last_inserted, witness: capacity 2 and three keys; the last two remain.\<close>

theorem Cache_Set_keeps_last_inserted_witness:
  "cache_ok (NewCache 2) \<and> distinct (set_keys example_sets) \<and>
   capacity (NewCache 2) < int (length example_sets) \<and>
   dom (entries (Set_all example_sets (NewCache 2))) = {''b'', ''c''}"
proof -
  have 1: "cache_ok (NewCache 2)" by (simp add: cache_ok_NewCache)
  have 2: "distinct (set_keys example_sets)" by (simp add: set_keys_def example_sets_def)
  have 3: "capacity (NewCache 2) < int (length example_sets)"
    by (simp add: NewCache_def example_sets_def)
  have "set (drop (length example_sets - nat (capacity (NewCache 2))) (set_keys example_sets))
          = {''b'', ''c''}"
    by (simp add: NewCache_def example_sets_def set_keys_def)
  with Cache_Set_keeps_last_inserted [OF 1 2 3] 1 2 3 show ?thesis by simp
qed

end
